theory Spec2Isabelle
  imports Main
begin

section \<open>Quantities formatter\<close>

text \<open>
  Python strings are modelled as \<open>string\<close>; a \<open>char\<close> stands for a code point below 256.
  \<open>isspace\<close> lists the code points below 256 that \<open>str.strip()\<close> removes, \<open>islinebreak\<close>
  those at which \<open>str.splitlines()\<close> cuts.
\<close>

definition isspace :: "char \<Rightarrow> bool" where
  "isspace c \<longleftrightarrow> c \<in> {CHR 0x09, CHR 0x0A, CHR 0x0B, CHR 0x0C, CHR 0x0D, CHR 0x1C, CHR 0x1D,
                        CHR 0x1E, CHR 0x1F, CHR 0x20, CHR 0x85, CHR 0xA0}"

definition islinebreak :: "char \<Rightarrow> bool" where
  "islinebreak c \<longleftrightarrow> c \<in> {CHR 0x0A, CHR 0x0B, CHR 0x0C, CHR 0x0D, CHR 0x1C, CHR 0x1D,
                            CHR 0x1E, CHR 0x85}"

definition strip :: "string \<Rightarrow> string" where
  "strip s = rev (dropWhile isspace (rev (dropWhile isspace s)))"

text \<open>\<open>s.rstrip("\n")\<close>: every trailing line feed goes.\<close>

definition rstrip_nl :: "string \<Rightarrow> string" where
  "rstrip_nl s = rev (dropWhile (\<lambda>c. c = CHR 0x0A) (rev s))"

text \<open>
  \<open>str.splitlines()\<close>: the text is cut at every line boundary, a carriage return followed
  by a line feed counts as one boundary, and no empty last line is produced when the text
  ends with a boundary. The first argument is the line read so far.
\<close>

fun splitlines_from :: "string \<Rightarrow> string \<Rightarrow> string list" where
  "splitlines_from cur [] = (if cur = [] then [] else [cur])"
| "splitlines_from cur [c] = (if islinebreak c then [cur] else [cur @ [c]])"
| "splitlines_from cur (c # d # cs) =
     (if c = CHR 0x0D \<and> d = CHR 0x0A then cur # splitlines_from [] cs
      else if islinebreak c then cur # splitlines_from [] (d # cs)
      else splitlines_from (cur @ [c]) (d # cs))"

definition splitlines :: "string \<Rightarrow> string list" where
  "splitlines s = splitlines_from [] s"

text \<open>\<open>str.split(sep)\<close> for a one-character separator: empty fields are kept.\<close>

fun split_from :: "char \<Rightarrow> string \<Rightarrow> string \<Rightarrow> string list" where
  "split_from sep cur [] = [cur]"
| "split_from sep cur (c # cs) =
     (if c = sep then cur # split_from sep [] cs else split_from sep (cur @ [c]) cs)"

definition split :: "char \<Rightarrow> string \<Rightarrow> string list" where
  "split sep s = split_from sep [] s"

text \<open>\<open>str.ljust(width)\<close>: a string that is already long enough is returned as it is.\<close>

definition ljust :: "nat \<Rightarrow> string \<Rightarrow> string" where
  "ljust width s = (if width \<le> length s then s else s @ replicate (width - length s) CHR '' '')"

fun join :: "string \<Rightarrow> string list \<Rightarrow> string" where
  "join sep [] = []"
| "join sep [x] = x"
| "join sep (x # y # ys) = x @ sep @ join sep (y # ys)"

text \<open>The pieces of \<open>_format_csv_like_text\<close>, in the order of the source.\<close>

definition nonblank_lines :: "string \<Rightarrow> string list" where
  "nonblank_lines content = filter (\<lambda>ln. strip ln \<noteq> []) (splitlines content)"

definition fields_of :: "string \<Rightarrow> string list" where
  "fields_of ln = map strip (filter (\<lambda>f. strip f \<noteq> []) (split CHR '','' ln))"

definition padded :: "string \<Rightarrow> string" where
  "padded ln = concat (map (ljust 15) (fields_of ln))"

definition out_lines :: "string \<Rightarrow> string list" where
  "out_lines content = map padded (nonblank_lines content)"

definition format_csv_like_text :: "string \<Rightarrow> string" where
  "format_csv_like_text content =
     join [CHR 0x0A] (out_lines content) @ (if out_lines content \<noteq> [] then [CHR 0x0A] else [])"


section \<open>Paths and the file system\<close>

text \<open>
  Paths are strings and are compared as strings; \<open>os.path\<close> is modelled by its POSIX
  functions.
\<close>

type_synonym path = string

definition basename :: "path \<Rightarrow> string" where
  "basename p = rev (takeWhile (\<lambda>c. c \<noteq> CHR ''/'') (rev p))"

definition dirname :: "path \<Rightarrow> path" where
  "dirname p =
     (let head = rev (dropWhile (\<lambda>c. c \<noteq> CHR ''/'') (rev p))
      in if head \<noteq> [] \<and> head \<noteq> replicate (length head) CHR ''/''
         then rev (dropWhile (\<lambda>c. c = CHR ''/'') (rev head)) else head)"

definition path_join :: "path \<Rightarrow> path \<Rightarrow> path" where
  "path_join a b =
     (if b \<noteq> [] \<and> hd b = CHR ''/'' then b
      else if a = [] \<or> last a = CHR ''/'' then a @ b
      else a @ ''/'' @ b)"

text \<open>
  The manifest, as \<open>json.load\<close> returns it and \<open>json.dump\<close> takes it: an object whose keys
  may be missing. A file holds either such a document or anything else (\<open>Blob\<close>), which
  \<open>json.load\<close> rejects. JSON texts of another shape (another top-level value, or values of other types under
  these keys) are outside the model.
\<close>

record manifest_branch =
  Name :: "string option"
  Prompt :: "string option"
  ImagePaths :: "string list option"

record manifest =
  Story :: "string option"
  Branches :: "manifest_branch list option"

datatype content = Blob string | Doc manifest

text \<open>
  The environment of the program: the home directory, the files with their contents, the
  directories, and the paths at which opening for reading, respectively creating or
  opening for writing, fails.
\<close>

record env =
  home :: path
  files :: "path \<rightharpoonup> content"
  dirs :: "path set"
  unreadable :: "path set"
  unwritable :: "path set"

datatype io_error = OSError | JSONDecodeError | SameFileError

definition path_exists :: "env \<Rightarrow> path \<Rightarrow> bool" where
  "path_exists e p \<longleftrightarrow> files e p \<noteq> None \<or> p \<in> dirs e"

text \<open>\<open>open(p, "rb").read()\<close>\<close>

definition read_file :: "env \<Rightarrow> path \<Rightarrow> io_error + content" where
  "read_file e p =
     (case files e p of
        None \<Rightarrow> Inl OSError
      | Some c \<Rightarrow> if p \<in> unreadable e then Inl OSError else Inr c)"

text \<open>\<open>json.load\<close> on the opened file.\<close>

definition read_json :: "env \<Rightarrow> path \<Rightarrow> io_error + manifest" where
  "read_json e p =
     (case read_file e p of
        Inl err \<Rightarrow> Inl err
      | Inr (Blob _) \<Rightarrow> Inl JSONDecodeError
      | Inr (Doc m) \<Rightarrow> Inr m)"

definition write_file :: "env \<Rightarrow> path \<Rightarrow> content \<Rightarrow> io_error + env" where
  "write_file e p c =
     (if p \<in> unwritable e \<or> p \<in> dirs e then Inl OSError
      else Inr (e\<lparr>files := (files e)(p \<mapsto> c)\<rparr>))"

text \<open>
  \<open>shutil.copy2(src, dst)\<close>: a destination that is a directory receives the file under
  the source's base name; copying a file onto itself is refused.
\<close>

definition copy2 :: "env \<Rightarrow> path \<Rightarrow> path \<Rightarrow> io_error + env" where
  "copy2 e src dst =
     (let dst' = (if dst \<in> dirs e then path_join dst (basename src) else dst)
      in if src = dst' then Inl SameFileError
         else case read_file e src of
                Inl err \<Rightarrow> Inl err
              | Inr c \<Rightarrow> write_file e dst' c)"

text \<open>
  \<open>os.makedirs(p, exist_ok=True)\<close>. Only the directory asked for is recorded; missing
  parents are created by the call too and are not tracked.
\<close>

definition makedirs :: "env \<Rightarrow> path \<Rightarrow> io_error + env" where
  "makedirs e p =
     (if files e p \<noteq> None then Inl OSError
      else if p \<in> dirs e then Inr e
      else if p \<in> unwritable e then Inl OSError
      else Inr (e\<lparr>dirs := insert p (dirs e)\<rparr>))"

definition desktop_scanner_folder :: "env \<Rightarrow> path" where
  "desktop_scanner_folder e = path_join (path_join (home e) ''Desktop'') ''Scanner''"


section \<open>Project model and application state\<close>

record image_data =
  original_path :: path
  image_bytes :: content

record branch_data =
  name :: string
  prompt :: string
  image_paths :: "string list"
  images :: "image_data list"

text \<open>
  The tree view has two levels. An item is named by its position: root item \<open>t\<close>, or
  child \<open>c\<close> of root item \<open>t\<close>. A root item carries its text, a child the number of its
  text \<open>Image k\<close>. Thumbnails, the preview label and \<open>image_refs\<close> belong to rendering
  and are left out.
\<close>

datatype item = BranchItem nat | ImageItem nat nat

text \<open>
  \<open>node_data\<close> maps an item to the object it stands for. An object reference is the
  position of the branch in \<open>branches\<close>, and of the image in the branch's \<open>images\<close>; both
  lists only grow at the end or are emptied as a whole.
\<close>

datatype node = BranchRef nat | ImageRef nat nat

record app =
  branches :: "branch_data list"
  node_data :: "item \<rightharpoonup> node"
  current_branch :: "nat option"
  tree :: "(string \<times> nat list) list"
  selection :: "item option"
  story_text :: string
  prompt_text :: string
  project_name_var :: string

definition random_prompts :: "string list" where
  "random_prompts =
     [''A futuristic city skyline at sunset'',
      ''An enchanted forest with glowing mushrooms and mythical creatures'',
      ''A steampunk-inspired mechanical dragon in a Victorian-era workshop'',
      ''A tranquil beach with crystal clear water and a lone palm tree'',
      ''A portrait of a wise old wizard with a long white beard, holding a crystal ball'',
      ''A bustling medieval marketplace with vendors, shoppers, and street performers'',
      ''A surreal landscape with floating islands and waterfalls that flow upwards'']"

definition initial_app :: app where
  "initial_app =
     \<lparr>branches = [], node_data = Map.empty, current_branch = None, tree = [],
      selection = None, story_text = [], prompt_text = [], project_name_var = []\<rparr>"

text \<open>What the user is shown or what ends a handler early.\<close>

datatype event = ShowInfo string | ShowError string | Uncaught string

text \<open>\<open>widget.get("1.0", "end")\<close>: Tk reports the content followed by a line feed.\<close>

definition text_get_all :: "string \<Rightarrow> string" where
  "text_get_all w = w @ [CHR 0x0A]"

text \<open>\<open>random.choice(seq)\<close>, with the generator's draw \<open>r\<close> as a parameter.\<close>

definition choice :: "nat \<Rightarrow> 'a list \<Rightarrow> 'a" where
  "choice r seq = seq ! (r mod length seq)"

subsection \<open>Tree view\<close>

fun tree_parent :: "item \<Rightarrow> item option" where
  "tree_parent (BranchItem t) = None"
| "tree_parent (ImageItem t c) = Some (BranchItem t)"

function get_branch_item_for :: "item \<Rightarrow> item" where
  "get_branch_item_for item_id =
     (case tree_parent item_id of
        None \<Rightarrow> item_id
      | Some parent \<Rightarrow> get_branch_item_for parent)"
  by pat_completeness auto
termination
  by (relation "measure (\<lambda>it. case it of BranchItem _ \<Rightarrow> 0 | ImageItem _ _ \<Rightarrow> 1)")
     (auto split: item.splits)

declare get_branch_item_for.simps [simp del]

definition tree_insert_root :: "string \<Rightarrow> (string \<times> nat list) list \<Rightarrow> item \<times> (string \<times> nat list) list" where
  "tree_insert_root text tr = (BranchItem (length tr), tr @ [(text, [])])"

text \<open>
  \<open>tree.insert(parent, "end", text=f"Image {k}")\<close>; Tk raises when \<open>parent\<close> is not an
  item of the tree (\<open>None\<close>). A child never becomes a parent in this program.
\<close>

fun tree_insert_child :: "item \<Rightarrow> nat \<Rightarrow> (string \<times> nat list) list \<Rightarrow> (item \<times> (string \<times> nat list) list) option" where
  "tree_insert_child (BranchItem t) k tr =
     (if t < length tr
      then Some (ImageItem t (length (snd (tr ! t))), tr[t := (fst (tr ! t), snd (tr ! t) @ [k])])
      else None)"
| "tree_insert_child (ImageItem t c) k tr = None"

subsection \<open>Branches and selection\<close>

text \<open>\<open>self.current_branch.prompt = self.prompt_text.get("1.0", "end").rstrip("\n")\<close>\<close>

definition persist_prompt :: "app \<Rightarrow> app" where
  "persist_prompt a =
     (case current_branch a of
        None \<Rightarrow> a
      | Some i \<Rightarrow>
          a\<lparr>branches := (branches a)[i := (branches a ! i)\<lparr>prompt := rstrip_nl (text_get_all (prompt_text a))\<rparr>]\<rparr>)"

definition add_branch :: "string option \<Rightarrow> nat \<Rightarrow> app \<Rightarrow> app" where
  "add_branch answer r a =
     (case answer of
        None \<Rightarrow> a
      | Some branch_name \<Rightarrow>
          if branch_name = [] then a
          else
            let p = choice r random_prompts;
                branch = \<lparr>name = branch_name, prompt = p, image_paths = [], images = []\<rparr>;
                (item_id, tr) = tree_insert_root branch_name (tree a)
            in a\<lparr>branches := branches a @ [branch],
                 tree := tr,
                 node_data := (node_data a)(item_id \<mapsto> BranchRef (length (branches a))),
                 selection := Some item_id,
                 current_branch := Some (length (branches a)),
                 prompt_text := p\<rparr>)"

definition on_tree_select :: "app \<Rightarrow> app" where
  "on_tree_select a =
     (let a1 = persist_prompt a in
      case selection a1 of
        None \<Rightarrow> a1
      | Some selected \<Rightarrow>
          (case node_data a1 (get_branch_item_for selected) of
             Some (BranchRef i) \<Rightarrow> a1\<lparr>current_branch := Some i, prompt_text := prompt (branches a1 ! i)\<rparr>
           | _ \<Rightarrow> a1\<lparr>current_branch := None, prompt_text := []\<rparr>))"

text \<open>The user clicks an item (or clears the selection): Tk sets the selection and runs the handler.\<close>

definition user_select :: "item option \<Rightarrow> app \<Rightarrow> app" where
  "user_select sel a = on_tree_select (a\<lparr>selection := sel\<rparr>)"

subsection \<open>Uploading images\<close>

text \<open>
  The image is appended to branch \<open>i\<close>, then its tree item is inserted and registered.
  \<open>Inl\<close> is the state in which Tk raised.
\<close>

definition add_image_node :: "item \<Rightarrow> nat \<Rightarrow> image_data \<Rightarrow> nat \<Rightarrow> app \<Rightarrow> app + app" where
  "add_image_node branch_item i img_data image_counter a =
     (let b = branches a ! i;
          a1 = a\<lparr>branches := (branches a)[i := b\<lparr>images := images b @ [img_data]\<rparr>]\<rparr>
      in case tree_insert_child branch_item image_counter (tree a1) of
           None \<Rightarrow> Inl a1
         | Some (image_item, tr) \<Rightarrow>
             Inr (a1\<lparr>tree := tr,
                      node_data := (node_data a1)(image_item \<mapsto> ImageRef i (length (images b)))\<rparr>))"

fun upload_loop :: "env \<Rightarrow> item \<Rightarrow> nat \<Rightarrow> path list \<Rightarrow> nat \<Rightarrow> app \<Rightarrow> event list \<times> app" where
  "upload_loop e branch_item i [] image_counter a = ([], a)"
| "upload_loop e branch_item i (fname # rest) image_counter a =
     (case read_file e fname of
        Inl err \<Rightarrow>
          (let (evs, a') = upload_loop e branch_item i rest image_counter a
           in (ShowError ''Error'' # evs, a'))
      | Inr img_bytes \<Rightarrow>
          (case add_image_node branch_item i \<lparr>original_path = fname, image_bytes = img_bytes\<rparr> image_counter a of
             Inl a1 \<Rightarrow> ([Uncaught ''TclError''], a1)
           | Inr a1 \<Rightarrow> upload_loop e branch_item i rest (image_counter + 1) a1))"

definition upload_images :: "path list \<Rightarrow> env \<Rightarrow> app \<Rightarrow> event list \<times> app" where
  "upload_images filenames e a =
     (case selection a of
        None \<Rightarrow> ([ShowInfo ''Upload Images''], a)
      | Some selected \<Rightarrow>
          (let branch_item = get_branch_item_for selected in
           case node_data a branch_item of
             Some (BranchRef i) \<Rightarrow>
               (let existing_images_count = length (images (branches a ! i)) in
                if filenames = [] then ([], a)
                else if existing_images_count + length filenames > 2
                then ([ShowError ''Image Limit''], a)
                else upload_loop e branch_item i filenames (existing_images_count + 1) a)
           | _ \<Rightarrow> ([ShowInfo ''Upload Images''], a)))"


subsection \<open>Saving a project\<close>

text \<open>
  The inner loop of \<open>save_project\<close>: every image of a branch is copied into the project
  folder under its base name. The result is the dialogs shown, the new \<open>image_paths\<close>
  and the environment after the copies.
\<close>

fun copy_images :: "path \<Rightarrow> image_data list \<Rightarrow> env \<Rightarrow> event list \<times> string list \<times> env" where
  "copy_images project_path [] e = ([], [], e)"
| "copy_images project_path (img_data # rest) e =
     (let new_name = basename (original_path img_data);
          new_path = path_join project_path new_name
      in case copy2 e (original_path img_data) new_path of
           Inl err \<Rightarrow>
             (let (evs, names, e') = copy_images project_path rest e
              in (ShowError ''Image Copy Error'' # evs, names, e'))
         | Inr e1 \<Rightarrow>
             (let (evs, names, e') = copy_images project_path rest e1
              in (evs, new_name # names, e')))"

fun save_branches :: "path \<Rightarrow> branch_data list \<Rightarrow> env \<Rightarrow> event list \<times> branch_data list \<times> env" where
  "save_branches project_path [] e = ([], [], e)"
| "save_branches project_path (branch # rest) e =
     (let (evs1, names, e1) = copy_images project_path (images branch) e;
          (evs2, rest', e2) = save_branches project_path rest e1
      in (evs1 @ evs2, branch\<lparr>image_paths := names\<rparr> # rest', e2))"

definition json_obj_of :: "string \<Rightarrow> branch_data list \<Rightarrow> manifest" where
  "json_obj_of story bs =
     \<lparr>Story = Some story,
      Branches = Some (map (\<lambda>b. \<lparr>Name = Some (name b), Prompt = Some (prompt b),
                                  ImagePaths = Some (image_paths b)\<rparr>) bs)\<rparr>"

text \<open>
  \<open>answer\<close> is what the name dialog returns; it is asked only when the name field is empty
  after stripping.
\<close>

definition save_to :: "string \<Rightarrow> app \<Rightarrow> env \<Rightarrow> event list \<times> app \<times> env" where
  "save_to project_name a e =
     (let project_path = path_join (desktop_scanner_folder e) project_name in
      if path_exists e project_path then ([ShowError ''Save Error''], a, e)
      else
        case makedirs e project_path of
          Inl err \<Rightarrow> ([Uncaught ''OSError''], a, e)
        | Inr e1 \<Rightarrow>
            (let story = rstrip_nl (text_get_all (story_text a));
                 (evs, bs, e2) = save_branches project_path (branches a) e1;
                 a' = a\<lparr>branches := bs\<rparr>;
                 json_path = path_join project_path ''project.json''
             in case write_file e2 json_path (Doc (json_obj_of story bs)) of
                  Inl err \<Rightarrow> (evs @ [ShowError ''Save Error''], a', e2)
                | Inr e3 \<Rightarrow> (evs @ [ShowInfo ''Save Successful''], a', e3)))"

definition save_project :: "string option \<Rightarrow> app \<Rightarrow> env \<Rightarrow> event list \<times> app \<times> env" where
  "save_project answer a e =
     (let a1 = persist_prompt a;
          project_name = strip (project_name_var a1)
      in if project_name = [] then
           (case answer of
              None \<Rightarrow> ([], a1, e)
            | Some asked \<Rightarrow>
                if asked = [] then ([], a1, e)
                else save_to asked (a1\<lparr>project_name_var := asked\<rparr>) e)
         else save_to project_name a1 e)"

subsection \<open>Loading a project\<close>

definition clear_project_data :: "app \<Rightarrow> app" where
  "clear_project_data a =
     a\<lparr>tree := [], selection := None, node_data := Map.empty, branches := [],
       current_branch := None, prompt_text := [], story_text := []\<rparr>"

text \<open>
  The image loop of \<open>load_project\<close> for the branch at position \<open>i\<close>. A name whose file is
  missing or cannot be read is skipped.
\<close>

fun load_images :: "env \<Rightarrow> path \<Rightarrow> item \<Rightarrow> nat \<Rightarrow> string list \<Rightarrow> nat \<Rightarrow> app \<Rightarrow> app + app" where
  "load_images e project_path branch_item i [] image_counter a = Inr a"
| "load_images e project_path branch_item i (img_name # rest) image_counter a =
     (let img_path = path_join project_path img_name in
      if \<not> path_exists e img_path then load_images e project_path branch_item i rest image_counter a
      else
        case read_file e img_path of
          Inl err \<Rightarrow> load_images e project_path branch_item i rest image_counter a
        | Inr img_bytes \<Rightarrow>
            (case add_image_node branch_item i \<lparr>original_path = img_path, image_bytes = img_bytes\<rparr> image_counter a of
               Inl a1 \<Rightarrow> Inl a1
             | Inr a1 \<Rightarrow> load_images e project_path branch_item i rest (image_counter + 1) a1))"

fun load_branches :: "env \<Rightarrow> path \<Rightarrow> manifest_branch list \<Rightarrow> app \<Rightarrow> app + app" where
  "load_branches e project_path [] a = Inr a"
| "load_branches e project_path (b # rest) a =
     (let nm = (case Name b of None \<Rightarrow> ''Branch'' | Some n \<Rightarrow> n);
          pr = (case Prompt b of None \<Rightarrow> [] | Some p \<Rightarrow> p);
          paths = (case ImagePaths b of None \<Rightarrow> [] | Some ps \<Rightarrow> ps);
          branch = \<lparr>name = nm, prompt = pr, image_paths = paths, images = []\<rparr>;
          (branch_item, tr) = tree_insert_root nm (tree a);
          a1 = a\<lparr>branches := branches a @ [branch], tree := tr,
                 node_data := (node_data a)(branch_item \<mapsto> BranchRef (length (branches a)))\<rparr>
      in case load_images e project_path branch_item (length (branches a)) paths 1 a1 of
           Inl a2 \<Rightarrow> Inl a2
         | Inr a2 \<Rightarrow> load_branches e project_path rest a2)"

text \<open>\<open>filename\<close> is what the file dialog returns, empty when it is cancelled.\<close>

definition load_project :: "path \<Rightarrow> app \<Rightarrow> env \<Rightarrow> event list \<times> app \<times> env" where
  "load_project filename a e =
     (case makedirs e (desktop_scanner_folder e) of
        Inl err \<Rightarrow> ([Uncaught ''OSError''], a, e)
      | Inr e1 \<Rightarrow>
          if filename = [] then ([], a, e1)
          else
            let project_path = dirname filename;
                a1 = a\<lparr>project_name_var := basename project_path\<rparr>
            in case read_json e1 filename of
                 Inl err \<Rightarrow> ([ShowError ''Load Error''], a1, e1)
               | Inr json_obj \<Rightarrow>
                   (let a2 = clear_project_data a1;
                        story = (case Story json_obj of None \<Rightarrow> [] | Some s \<Rightarrow> s);
                        a3 = a2\<lparr>story_text := story @ story_text a2\<rparr>;
                        branches_json = (case Branches json_obj of None \<Rightarrow> [] | Some bs \<Rightarrow> bs)
                    in case load_branches e1 project_path branches_json a3 of
                         Inl a4 \<Rightarrow> ([Uncaught ''TclError''], a4, e1)
                       | Inr a4 \<Rightarrow> ([], a4, e1)))"

section \<open>The outcome of the copies of a save\<close>





section \<open>States the user can reach\<close>

text \<open>
  \<open>manifest_within_limit\<close>: the manifest at \<open>filename\<close>, when it can be read and parsed,
  lists at most two image paths in every branch.
\<close>

definition manifest_within_limit :: "env \<Rightarrow> path \<Rightarrow> bool" where
  "manifest_within_limit e filename =
     (case read_json e filename of
        Inl err \<Rightarrow> True
      | Inr json_obj \<Rightarrow>
          list_all (\<lambda>b. length (case ImagePaths b of None \<Rightarrow> [] | Some ps \<Rightarrow> ps) \<le> 2)
            (case Branches json_obj of None \<Rightarrow> [] | Some bs \<Rightarrow> bs))"

text \<open>
  The states reached from the initial one by adding branches, selecting items, editing
  the text fields, uploading images, saving, and loading manifests within that limit.
  The environment may be any at each step.
\<close>

inductive reachable :: "app \<Rightarrow> bool" where
  start: "reachable initial_app"
| add: "reachable a \<Longrightarrow> reachable (add_branch answer r a)"
| select: "reachable a \<Longrightarrow> reachable (user_select sel a)"
| edit: "reachable a \<Longrightarrow> reachable (a\<lparr>story_text := s, prompt_text := p, project_name_var := n\<rparr>)"
| upload: "reachable a \<Longrightarrow> reachable (snd (upload_images filenames e a))"
| save: "reachable a \<Longrightarrow> reachable (fst (snd (save_project answer a e)))"
| load: "reachable a \<Longrightarrow> manifest_within_limit e filename \<Longrightarrow>
         reachable (fst (snd (load_project filename a e)))"

section \<open>Words for the round trip\<close>

text \<open>
  Where \<open>save_project\<close> puts the copy of an image, the image as \<open>load_project\<close> rebuilds it
  from that copy, whether a file can be read, and all images of a project.
\<close>

definition stored_path :: "path \<Rightarrow> image_data \<Rightarrow> path" where
  "stored_path project_path img = path_join project_path (basename (original_path img))"

definition relocated :: "path \<Rightarrow> image_data \<Rightarrow> image_data" where
  "relocated project_path img = img\<lparr>original_path := stored_path project_path img\<rparr>"

definition readable :: "env \<Rightarrow> path \<Rightarrow> bool" where
  "readable e p = (case read_file e p of Inl err \<Rightarrow> False | Inr c \<Rightarrow> True)"

definition all_images :: "branch_data list \<Rightarrow> image_data list" where
  "all_images bs = concat (map images bs)"

text \<open>A copy of the save loop succeeds when the source can be read and the destination written.\<close>

definition copy_ok :: "env \<Rightarrow> path \<Rightarrow> image_data \<Rightarrow> bool" where
  "copy_ok e project_path img \<longleftrightarrow>
     readable e (original_path img) \<and> stored_path project_path img \<notin> unwritable e"

text \<open>
  What the loops of \<open>load_project\<close> build from a list of image names, and from a branch
  entry of the manifest.
\<close>

definition loaded_images :: "env \<Rightarrow> path \<Rightarrow> string list \<Rightarrow> image_data list" where
  "loaded_images e project_path names =
     concat (map (\<lambda>n. case read_file e (path_join project_path n) of
                          Inl err \<Rightarrow> []
                        | Inr c \<Rightarrow> [\<lparr>original_path = path_join project_path n, image_bytes = c\<rparr>])
                 names)"

definition loaded_branch :: "env \<Rightarrow> path \<Rightarrow> manifest_branch \<Rightarrow> branch_data" where
  "loaded_branch e project_path b =
     \<lparr>name = (case Name b of None \<Rightarrow> ''Branch'' | Some n \<Rightarrow> n),
      prompt = (case Prompt b of None \<Rightarrow> [] | Some p \<Rightarrow> p),
      image_paths = (case ImagePaths b of None \<Rightarrow> [] | Some ps \<Rightarrow> ps),
      images = loaded_images e project_path (case ImagePaths b of None \<Rightarrow> [] | Some ps \<Rightarrow> ps)\<rparr>"

section \<open>Example states\<close>

text \<open>
  A home directory with three pictures and an older project folder whose manifest is not
  JSON, and a project of two branches, the second holding two images, while the prompt of
  the first is being edited.
\<close>

definition demo_env :: env where
  "demo_env =
     \<lparr>home = ''/home/u'',
      files = [''/pics/a.png'' \<mapsto> Blob ''A'', ''/pics/b.png'' \<mapsto> Blob ''B'',
               ''/pics/c.png'' \<mapsto> Blob ''C'',
               ''/home/u/Desktop/Scanner/old/project.json'' \<mapsto> Blob ''{''],
      dirs = {''/home/u/Desktop/Scanner'', ''/home/u/Desktop/Scanner/old''},
      unreadable = {}, unwritable = {}\<rparr>"

definition demo_app :: app where
  "demo_app =
     \<lparr>branches =
        [\<lparr>name = ''Intro'', prompt = ''first'', image_paths = [], images = []\<rparr>,
         \<lparr>name = ''Forest'', prompt = ''second'', image_paths = [],
          images = [\<lparr>original_path = ''/pics/a.png'', image_bytes = Blob ''A''\<rparr>,
                    \<lparr>original_path = ''/pics/b.png'', image_bytes = Blob ''B''\<rparr>]\<rparr>],
      node_data = [BranchItem 0 \<mapsto> BranchRef 0, BranchItem 1 \<mapsto> BranchRef 1,
                   ImageItem 1 0 \<mapsto> ImageRef 1 0, ImageItem 1 1 \<mapsto> ImageRef 1 1],
      current_branch = Some 0,
      tree = [(''Intro'', []), (''Forest'', [1, 2])],
      selection = Some (ImageItem 1 1),
      story_text = ''Once'',
      prompt_text = ''first, edited'',
      project_name_var = '' old ''\<rparr>"


definition demo_app_new :: app where
  "demo_app_new = demo_app\<lparr>project_name_var := ''new''\<rparr>"

text \<open>A saved project whose manifest lists three images for its branch, all three present.\<close>

definition demo_env_three :: env where
  "demo_env_three =
     \<lparr>home = ''/home/u'',
      files = [''/home/u/Desktop/Scanner/big/project.json'' \<mapsto>
                 Doc \<lparr>Story = Some ''Once'',
                      Branches = Some [\<lparr>Name = Some ''Forest'', Prompt = Some ''second'',
                                         ImagePaths = Some [''a.png'', ''b.png'', ''c.png'']\<rparr>]\<rparr>,
               ''/home/u/Desktop/Scanner/big/a.png'' \<mapsto> Blob ''A'',
               ''/home/u/Desktop/Scanner/big/b.png'' \<mapsto> Blob ''B'',
               ''/home/u/Desktop/Scanner/big/c.png'' \<mapsto> Blob ''C''],
      dirs = {''/home/u/Desktop/Scanner'', ''/home/u/Desktop/Scanner/big''},
      unreadable = {}, unwritable = {}\<rparr>"

text \<open>
  The environment after the project has been saved under the new name from the first
  home directory, and the same with the copy of the second picture deleted afterwards.
\<close>

definition demo_env_saved :: env where
  "demo_env_saved = snd (snd (save_project None demo_app_new demo_env))"

definition demo_env_later :: env where
  "demo_env_later =
     demo_env_saved\<lparr>files := (files demo_env_saved)(''/home/u/Desktop/Scanner/new/b.png'' := None)\<rparr>"

text \<open>
  A branch with two pictures of the same base name from two folders, and the environment
  after the two copies and after the manifest has been written.
\<close>

definition demo_env_clash :: env where
  "demo_env_clash =
     \<lparr>home = ''/home/u'',
      files = [''/pics/a.png'' \<mapsto> Blob ''A'', ''/more/a.png'' \<mapsto> Blob ''B''],
      dirs = {''/home/u/Desktop/Scanner''},
      unreadable = {}, unwritable = {}\<rparr>"

definition demo_app_clash :: app where
  "demo_app_clash =
     \<lparr>branches =
        [\<lparr>name = ''Forest'', prompt = ''second'', image_paths = [],
          images = [\<lparr>original_path = ''/pics/a.png'', image_bytes = Blob ''A''\<rparr>,
                    \<lparr>original_path = ''/more/a.png'', image_bytes = Blob ''B''\<rparr>]\<rparr>],
      node_data = [BranchItem 0 \<mapsto> BranchRef 0, ImageItem 0 0 \<mapsto> ImageRef 0 0,
                   ImageItem 0 1 \<mapsto> ImageRef 0 1],
      current_branch = None,
      tree = [(''Forest'', [1, 2])],
      selection = None,
      story_text = ''Once'',
      prompt_text = [],
      project_name_var = ''clash''\<rparr>"

definition demo_env_clash_copied :: env where
  "demo_env_clash_copied =
     demo_env_clash\<lparr>dirs := insert ''/home/u/Desktop/Scanner/clash'' (dirs demo_env_clash),
                    files := (files demo_env_clash)(''/home/u/Desktop/Scanner/clash/a.png'' \<mapsto> Blob ''B'')\<rparr>"

definition demo_env_clash_saved :: env where
  "demo_env_clash_saved =
     demo_env_clash_copied\<lparr>files := (files demo_env_clash_copied)
       (''/home/u/Desktop/Scanner/clash/project.json'' \<mapsto>
          Doc \<lparr>Story = Some ''Once'',
               Branches = Some [\<lparr>Name = Some ''Forest'', Prompt = Some ''second'',
                                  ImagePaths = Some [''a.png'', ''a.png'']\<rparr>]\<rparr>)\<rparr>"

section \<open>Properties of the quantities formatter\<close>

text \<open>A line of the formatter's output contains no line boundary.\<close>

lemma splitlines_from_no_break:
  "\<not> list_ex islinebreak cur \<Longrightarrow> l \<in> set (splitlines_from cur s) \<Longrightarrow> \<not> list_ex islinebreak l"
  by (induction cur s rule: splitlines_from.induct) (auto split: if_splits)

lemma splitlines_no_break: "l \<in> set (splitlines s) \<Longrightarrow> \<not> list_ex islinebreak l"
  unfolding splitlines_def using splitlines_from_no_break [of "[]" l s] by simp

lemma set_strip: "set (strip s) \<subseteq> set s"
proof -
  have "set (strip s) = set (dropWhile isspace (rev (dropWhile isspace s)))"
    by (simp add: strip_def)
  also have "\<dots> \<subseteq> set (rev (dropWhile isspace s))" by (rule set_dropWhileD [THEN subsetI]) 
  also have "\<dots> \<subseteq> set s" using set_dropWhileD by fastforce
  finally show ?thesis .
qed

lemma split_from_chars:
  "f \<in> set (split_from sep cur s) \<Longrightarrow> set f \<subseteq> set cur \<union> set s"
  by (induction sep cur s rule: split_from.induct) (auto split: if_splits)

lemma fields_of_chars: "f \<in> set (fields_of ln) \<Longrightarrow> set f \<subseteq> set ln"
  unfolding fields_of_def split_def
  using set_strip split_from_chars [of _ "CHR '',''" "[]" ln] by fastforce

lemma set_ljust: "set (ljust w s) \<subseteq> insert CHR '' '' (set s)"
  by (auto simp: ljust_def)

lemma padded_chars: "set (padded ln) \<subseteq> insert CHR '' '' (set ln)"
  unfolding padded_def using set_ljust fields_of_chars by fastforce

lemma space_no_break: "\<not> islinebreak CHR '' ''"
  by (simp add: islinebreak_def)

lemma padded_no_break: "\<not> list_ex islinebreak ln \<Longrightarrow> \<not> list_ex islinebreak (padded ln)"
  using padded_chars [of ln] space_no_break by (auto simp: list_ex_iff)

lemma out_lines_no_break: "l \<in> set (out_lines content) \<Longrightarrow> \<not> list_ex islinebreak l"
  unfolding out_lines_def nonblank_lines_def
  using padded_no_break splitlines_no_break by auto

lemma splitlines_from_line:
  "\<not> list_ex islinebreak l \<Longrightarrow>
   splitlines_from cur (l @ CHR 0x0A # rest) = (cur @ l) # splitlines_from [] rest"
proof (induction l arbitrary: cur)
  case Nil
  then show ?case by (cases rest) (simp_all add: islinebreak_def)
next
  case (Cons c l)
  then have c: "\<not> islinebreak c" and l: "\<not> list_ex islinebreak l" by simp_all
  obtain d ds where d: "l @ CHR 0x0A # rest = d # ds" by (cases l) simp_all
  have "c \<noteq> CHR 0x0D" using c by (auto simp: islinebreak_def)
  then have "splitlines_from cur ((c # l) @ CHR 0x0A # rest) = splitlines_from (cur @ [c]) (l @ CHR 0x0A # rest)"
    using c d by simp
  then show ?case using Cons.IH [OF l, of "cur @ [c]"] by simp
qed

lemma splitlines_terminated:
  "\<forall>l \<in> set ls. \<not> list_ex islinebreak l \<Longrightarrow>
   splitlines (concat (map (\<lambda>l. l @ [CHR 0x0A]) ls)) = ls"
proof (induction ls)
  case Nil
  then show ?case by (simp add: splitlines_def)
next
  case (Cons l ls)
  then show ?case
    using splitlines_from_line [of l "[]" "concat (map (\<lambda>l. l @ [CHR 0x0A]) ls)"]
    by (simp add: splitlines_def)
qed

lemma join_terminated:
  "join [CHR 0x0A] ls @ (if ls \<noteq> [] then [CHR 0x0A] else []) = concat (map (\<lambda>l. l @ [CHR 0x0A]) ls)"
  by (induction ls rule: induct_list012) simp_all

lemma splitlines_format: "splitlines (format_csv_like_text content) = out_lines content"
  unfolding format_csv_like_text_def join_terminated
  by (rule splitlines_terminated) (simp add: out_lines_no_break)

lemma length_ljust: "length (ljust w s) = max w (length s)"
  by (simp add: ljust_def)

lemma length_padded: "length (padded ln) = sum_list (map (\<lambda>f. max 15 (length f)) (fields_of ln))"
  by (simp add: padded_def length_concat comp_def length_ljust)

lemma sum_list_all_15: "\<forall>f \<in> set fs. length f \<le> 15 \<Longrightarrow> sum_list (map (\<lambda>f. max 15 (length f)) fs) = 15 * length fs"
  by (induction fs) (simp_all add: max_def)

text \<open>
  Claim C2, as stated, fails: a field of more than 15 characters is not cut by
  \<open>ljust\<close>, so the line of the single field \<open>abcdefghijklmnop\<close> has 16 characters.
\<close>

theorem format_width_counterexample:
  "length (nonblank_lines ''abcdefghijklmnop'') = 1 \<and>
   splitlines (format_csv_like_text ''abcdefghijklmnop'') = [''abcdefghijklmnop''] \<and>
   \<not> 15 dvd length (splitlines (format_csv_like_text ''abcdefghijklmnop'') ! 0)"
  by code_simp

text \<open>
  Claim C2, amended. For every input string, the number of lines of the formatter's
  output equals the number of input lines that are not blank; output line \<open>i\<close> is the
  padded form of the \<open>i\<close>-th non-blank input line, its length is the sum over the line's
  trimmed fields of the larger of 15 and the field's length, and it is a multiple of 15
  when no trimmed field of that line is longer than 15 characters.
\<close>

theorem format_line_count_and_width:
  "length (splitlines (format_csv_like_text content)) =
     length (filter (\<lambda>ln. strip ln \<noteq> []) (splitlines content)) \<and>
   (\<forall>i < length (nonblank_lines content).
      splitlines (format_csv_like_text content) ! i = padded (nonblank_lines content ! i) \<and>
      length (padded (nonblank_lines content ! i)) =
        sum_list (map (\<lambda>f. max 15 (length f)) (fields_of (nonblank_lines content ! i))) \<and>
      ((\<forall>f \<in> set (fields_of (nonblank_lines content ! i)). length f \<le> 15) \<longrightarrow>
         15 dvd length (splitlines (format_csv_like_text content) ! i)))"
proof -
  have n: "length (splitlines (format_csv_like_text content)) =
     length (filter (\<lambda>ln. strip ln \<noteq> []) (splitlines content))"
    by (simp add: splitlines_format out_lines_def nonblank_lines_def)
  have w: "15 dvd length (padded ln)" if "\<forall>f \<in> set (fields_of ln). length f \<le> 15" for ln
    using sum_list_all_15 [OF that] by (simp add: length_padded)
  show ?thesis
    using n w by (simp add: splitlines_format out_lines_def length_padded)
qed

text \<open>Two non-blank lines around an empty one; the fields of the second are \<open>x\<close> and \<open>y\<close>.\<close>

theorem format_line_count_and_width_witness:
  "length (nonblank_lines (''a,b,c'' @ [CHR 0x0A, CHR 0x0A] @ '' x , y'')) = 2 \<and>
   fields_of (nonblank_lines (''a,b,c'' @ [CHR 0x0A, CHR 0x0A] @ '' x , y'') ! 1) = [''x'', ''y''] \<and>
   length (splitlines (format_csv_like_text (''a,b,c'' @ [CHR 0x0A, CHR 0x0A] @ '' x , y''))) = 2 \<and>
   15 dvd length (splitlines (format_csv_like_text (''a,b,c'' @ [CHR 0x0A, CHR 0x0A] @ '' x , y'')) ! 1)"
proof -
  let ?c = "''a,b,c'' @ [CHR 0x0A, CHR 0x0A] @ '' x , y''"
  have l: "nonblank_lines ?c = [''a,b,c'', '' x , y'']"
    by (simp add: nonblank_lines_def splitlines_def strip_def isspace_def islinebreak_def)
  have f: "fields_of '' x , y'' = [''x'', ''y'']"
    by (simp add: fields_of_def split_def strip_def isspace_def)
  have i: "1 < length (nonblank_lines ?c)"
    unfolding l by simp
  have h: "\<forall>f \<in> set (fields_of (nonblank_lines ?c ! 1)). length f \<le> 15"
    unfolding l by (simp add: f)
  have "15 dvd length (splitlines (format_csv_like_text ?c) ! 1)"
    using format_line_count_and_width [of ?c] i h by blast
  moreover have "length (splitlines (format_csv_like_text ?c)) = 2"
    using format_line_count_and_width [of ?c] l by (simp add: nonblank_lines_def)
  ultimately show ?thesis
    using l f by simp
qed

text \<open>
  Claim C8. An input line that is not blank but whose comma-separated fields are all
  empty after trimming is not omitted: the output has one line per non-blank input line,
  and the line for such an input line is empty. In particular the formatter maps
  three spaces, a comma, two spaces and a line feed to a single line feed.
\<close>

theorem blank_fields_give_empty_line:
  "length (splitlines (format_csv_like_text content)) = length (nonblank_lines content) \<and>
   (\<forall>i < length (nonblank_lines content).
      (\<forall>f \<in> set (split CHR '','' (nonblank_lines content ! i)). strip f = []) \<longrightarrow>
      splitlines (format_csv_like_text content) ! i = []) \<and>
   format_csv_like_text (''   ,  '' @ [CHR 0x0A]) = [CHR 0x0A]"
proof -
  have e: "padded ln = []" if "\<forall>f \<in> set (split CHR '','' ln). strip f = []" for ln
  proof -
    have "filter (\<lambda>f. strip f \<noteq> []) (split CHR '','' ln) = []"
      using that by (simp add: filter_empty_conv)
    then show ?thesis by (simp add: padded_def fields_of_def)
  qed
  have c: "format_csv_like_text (''   ,  '' @ [CHR 0x0A]) = [CHR 0x0A]"
    by (simp add: format_csv_like_text_def out_lines_def nonblank_lines_def splitlines_def
        strip_def isspace_def islinebreak_def padded_def fields_of_def split_def)
  show ?thesis
    using e c by (simp add: splitlines_format out_lines_def)
qed

text \<open>The middle line of three consists of blanks and commas only.\<close>

theorem blank_fields_give_empty_line_witness:
  "nonblank_lines (''a'' @ [CHR 0x0A] @ '' , ,'' @ [CHR 0x0A] @ ''b'') = [''a'', '' , ,'', ''b''] \<and>
   map strip (split CHR '','' '' , ,'') = [[], [], []] \<and>
   length (splitlines (format_csv_like_text (''a'' @ [CHR 0x0A] @ '' , ,'' @ [CHR 0x0A] @ ''b''))) = 3 \<and>
   splitlines (format_csv_like_text (''a'' @ [CHR 0x0A] @ '' , ,'' @ [CHR 0x0A] @ ''b'')) ! 1 = []"
proof -
  let ?c = "''a'' @ [CHR 0x0A] @ '' , ,'' @ [CHR 0x0A] @ ''b''"
  have l: "nonblank_lines ?c = [''a'', '' , ,'', ''b'']"
    by (simp add: nonblank_lines_def splitlines_def strip_def isspace_def islinebreak_def)
  have f: "map strip (split CHR '','' '' , ,'') = [[], [], []]"
    by (simp add: split_def strip_def isspace_def)
  have s: "split CHR '','' '' , ,'' = ['' '', '' '', []]"
    by (simp add: split_def)
  have b: "\<forall>f \<in> set (split CHR '','' '' , ,''). strip f = []"
    unfolding s by (simp add: strip_def isspace_def)
  show ?thesis
    using blank_fields_give_empty_line [of ?c] l f b by simp
qed

section \<open>Properties of the project model\<close>

lemma get_branch_item_for_root: "get_branch_item_for (BranchItem t) = BranchItem t"
  by (simp add: get_branch_item_for.simps)

lemma get_branch_item_for_child: "get_branch_item_for (ImageItem t c) = BranchItem t"
  by (simp add: get_branch_item_for.simps)

lemma rstrip_nl_text_get_all: "rstrip_nl (text_get_all w) = rstrip_nl w"
  by (simp add: rstrip_nl_def text_get_all_def)

lemma rstrip_nl_id: "w = [] \<or> last w \<noteq> CHR 0x0A \<Longrightarrow> rstrip_nl w = w"
  by (cases w rule: rev_cases) (auto simp: rstrip_nl_def)

lemma choice_in_pool: "choice r random_prompts \<in> set random_prompts"
proof -
  have "length random_prompts = 7" by (simp add: random_prompts_def)
  then have "r mod length random_prompts < length random_prompts" by simp
  then show ?thesis unfolding choice_def by (rule nth_mem)
qed

text \<open>
  Claim C4, as stated, fails: \<open>add_branch\<close> tests the name for emptiness only, so a name of
  three spaces is accepted and a branch of that name is appended.
\<close>

theorem add_branch_blank_name_counterexample:
  "strip ''   '' = [] \<and>
   map name (branches (add_branch (Some ''   '') 0 initial_app)) = [''   '']"
  by (simp add: strip_def isspace_def add_branch_def initial_app_def tree_insert_root_def Let_def)

text \<open>
  Claim C4, amended. \<open>add_branch\<close> changes nothing when the name dialog is cancelled or
  returns the empty string. For every other name, a name of whitespace included, it
  appends a new branch with that name, no images, and a prompt taken from the fixed pool.
\<close>

theorem add_branch_appends:
  "(answer = None \<or> answer = Some [] \<longrightarrow> add_branch answer r a = a) \<and>
   (\<forall>branch_name. answer = Some branch_name \<and> branch_name \<noteq> [] \<longrightarrow>
      branches (add_branch answer r a) =
        branches a @ [\<lparr>name = branch_name, prompt = choice r random_prompts,
                        image_paths = [], images = []\<rparr>] \<and>
      choice r random_prompts \<in> set random_prompts)"
  using choice_in_pool [of r]
  by (auto simp: add_branch_def tree_insert_root_def Let_def)

text \<open>The empty name is refused; the name \<open>Intro\<close> with draw 9 gets the third prompt.\<close>

theorem add_branch_appends_witness:
  "add_branch (Some []) 9 initial_app = initial_app \<and>
   branches (add_branch (Some ''Intro'') 9 initial_app) =
     [\<lparr>name = ''Intro'', prompt = ''A steampunk-inspired mechanical dragon in a Victorian-era workshop'',
       image_paths = [], images = []\<rparr>] \<and>
   ''A steampunk-inspired mechanical dragon in a Victorian-era workshop'' \<in> set random_prompts"
proof -
  have c: "choice 9 random_prompts = ''A steampunk-inspired mechanical dragon in a Victorian-era workshop''"
    by (simp add: choice_def random_prompts_def)
  have b: "branches initial_app = []" by (simp add: initial_app_def)
  show ?thesis
    using add_branch_appends [of "Some []" 9 initial_app]
      add_branch_appends [of "Some ''Intro''" 9 initial_app] c b
    by simp
qed

text \<open>
  Claim C5. When the selected item belongs to branch \<open>i\<close> and the number of images of
  that branch plus the size of the batch exceeds 2, \<open>upload_images\<close> leaves the whole
  application state as it was: no image of the batch is added and the branch keeps its
  images. For a non-empty batch the limit error is what is shown.
\<close>

theorem upload_over_limit_rejected:
  "selection a = Some selected \<Longrightarrow>
   node_data a (get_branch_item_for selected) = Some (BranchRef i) \<Longrightarrow>
   length (images (branches a ! i)) + length filenames > 2 \<Longrightarrow>
   snd (upload_images filenames e a) = a \<and>
   (filenames \<noteq> [] \<longrightarrow> fst (upload_images filenames e a) = [ShowError ''Image Limit''])"
  by (simp add: upload_images_def Let_def)

text \<open>A third image for the branch that already holds two.\<close>

theorem upload_over_limit_rejected_witness:
  "selection demo_app = Some (ImageItem 1 1) \<and>
   node_data demo_app (get_branch_item_for (ImageItem 1 1)) = Some (BranchRef 1) \<and>
   length (images (branches demo_app ! 1)) = 2 \<and>
   upload_images [''/pics/c.png''] demo_env demo_app = ([ShowError ''Image Limit''], demo_app)"
proof -
  have s: "selection demo_app = Some (ImageItem 1 1)"
    and n: "node_data demo_app (get_branch_item_for (ImageItem 1 1)) = Some (BranchRef 1)"
    and l: "length (images (branches demo_app ! 1)) = 2"
    by (simp_all add: demo_app_def get_branch_item_for_child)
  have "length (images (branches demo_app ! 1)) + length [''/pics/c.png''] > 2"
    using l by simp
  from upload_over_limit_rejected [OF s n this, of demo_env]
  have "upload_images [''/pics/c.png''] demo_env demo_app = ([ShowError ''Image Limit''], demo_app)"
    by (simp add: prod_eq_iff)
  then show ?thesis using s n l by simp
qed

text \<open>
  The select handler commits before it switches. When a branch \<open>A\<close> is active,
  \<open>on_tree_select\<close> stores the text of the prompt
  field, as the handler reads it (without trailing line feeds), into the prompt of
  \<open>A\<close> and changes no other branch; a text that does not end in a line feed is stored
  as it is. The prompt then displayed for the newly selected item's branch \<open>B\<close> is
  read from the branches after that commit. When no branch is active the branches are
  left as they are.
\<close>

theorem select_commits_active_prompt:
  "(current_branch a = Some A \<and> A < length (branches a) \<longrightarrow>
      branches (on_tree_select a) =
        (branches a)[A := (branches a ! A)\<lparr>prompt := rstrip_nl (text_get_all (prompt_text a))\<rparr>] \<and>
      (prompt_text a = [] \<or> last (prompt_text a) \<noteq> CHR 0x0A \<longrightarrow>
         prompt (branches (on_tree_select a) ! A) = prompt_text a) \<and>
      (\<forall>selected B.
         selection a = Some selected \<and>
         node_data a (get_branch_item_for selected) = Some (BranchRef B) \<longrightarrow>
         current_branch (on_tree_select a) = Some B \<and>
         prompt_text (on_tree_select a) = prompt (branches (on_tree_select a) ! B))) \<and>
   (current_branch a = None \<longrightarrow> branches (on_tree_select a) = branches a)"
proof -
  have p: "selection (persist_prompt a) = selection a" "node_data (persist_prompt a) = node_data a"
    by (simp_all add: persist_prompt_def split: option.splits)
  have b: "branches (on_tree_select a) = branches (persist_prompt a)"
    by (simp add: on_tree_select_def Let_def split: option.splits node.splits)
  have s: "current_branch (on_tree_select a) = Some B \<and>
      prompt_text (on_tree_select a) = prompt (branches (on_tree_select a) ! B)"
    if "selection a = Some selected" "node_data a (get_branch_item_for selected) = Some (BranchRef B)"
    for selected B
    using that by (simp add: on_tree_select_def Let_def p)
  have c: "branches (persist_prompt a) =
      (branches a)[A := (branches a ! A)\<lparr>prompt := rstrip_nl (text_get_all (prompt_text a))\<rparr>]"
    if "current_branch a = Some A" for A
    using that by (simp add: persist_prompt_def)
  have n: "branches (persist_prompt a) = branches a" if "current_branch a = None"
    using that by (simp add: persist_prompt_def)
  show ?thesis
    using b s c n rstrip_nl_id [of "prompt_text a"]
    by (auto simp: rstrip_nl_text_get_all)
qed

text \<open>
  The first branch is active with an edited prompt and an image of the second branch is
  selected; in the initial state no branch is active.
\<close>

theorem select_commits_active_prompt_witness:
  "current_branch demo_app = Some 0 \<and> selection demo_app = Some (ImageItem 1 1) \<and>
   prompt_text demo_app = ''first, edited'' \<and>
   map prompt (branches demo_app) = [''first'', ''second''] \<and>
   map prompt (branches (on_tree_select demo_app)) = [''first, edited'', ''second''] \<and>
   current_branch (on_tree_select demo_app) = Some 1 \<and>
   prompt_text (on_tree_select demo_app) = ''second'' \<and>
   current_branch initial_app = None \<and>
   branches (on_tree_select initial_app) = branches initial_app"
proof -
  have c: "current_branch demo_app = Some 0 \<and> 0 < length (branches demo_app)"
    and s: "selection demo_app = Some (ImageItem 1 1) \<and>
            node_data demo_app (get_branch_item_for (ImageItem 1 1)) = Some (BranchRef 1)"
    and t: "prompt_text demo_app = ''first, edited''"
    and m: "map prompt (branches demo_app) = [''first'', ''second'']"
    by (simp_all add: demo_app_def get_branch_item_for_child)
  have r: "rstrip_nl (text_get_all ''first, edited'') = ''first, edited''"
    by (simp add: rstrip_nl_def text_get_all_def)
  have b: "branches (on_tree_select demo_app) =
      (branches demo_app)[0 := (branches demo_app ! 0)\<lparr>prompt := ''first, edited''\<rparr>]"
    using select_commits_active_prompt [of demo_app 0] c t r by simp
  have d: "current_branch (on_tree_select demo_app) = Some 1 \<and>
      prompt_text (on_tree_select demo_app) = prompt (branches (on_tree_select demo_app) ! 1)"
    using select_commits_active_prompt [of demo_app 0] c s by blast
  have i: "current_branch initial_app = None" by (simp add: initial_app_def)
  have n: "branches (on_tree_select initial_app) = branches initial_app"
    using select_commits_active_prompt [of initial_app 0] i by simp
  have "map prompt (branches (on_tree_select demo_app)) = [''first, edited'', ''second'']"
    unfolding b by (simp add: demo_app_def)
  moreover have "prompt_text (on_tree_select demo_app) = ''second''"
    using d unfolding b by (simp add: demo_app_def)
  ultimately show ?thesis using c s t m d i n by simp
qed

lemma add_branch_demo_fields:
  "branches (add_branch (Some ''B3'') 0 demo_app) =
     branches demo_app @
     [\<lparr>name = ''B3'', prompt = ''A futuristic city skyline at sunset'', image_paths = [], images = []\<rparr>]"
  "selection (add_branch (Some ''B3'') 0 demo_app) = Some (BranchItem 2)"
  "current_branch (add_branch (Some ''B3'') 0 demo_app) = Some 2"
  "prompt_text (add_branch (Some ''B3'') 0 demo_app) = ''A futuristic city skyline at sunset''"
  "node_data (add_branch (Some ''B3'') 0 demo_app) (BranchItem 2) = Some (BranchRef 2)"
  by (simp_all add: add_branch_def tree_insert_root_def Let_def choice_def random_prompts_def
      demo_app_def)

text \<open>
  Claim C9 does not hold of \<open>add_branch\<close>. The first branch is active and its prompt is
  being edited. Adding a branch selects the new branch, makes it the active one and puts
  its prompt into the prompt field, without storing the edited text into the first branch:
  the first branch keeps its old prompt. The select handler that Tk runs afterwards for the
  new selection commits into the new branch, so the edit is not recovered there either.
  \<open>on_tree_select\<close> and \<open>save_project\<close> both store the prompt field first.
\<close>

theorem add_branch_drops_prompt_edit:
  "current_branch demo_app = Some 0 \<and>
   prompt_text demo_app = ''first, edited'' \<and>
   prompt (branches demo_app ! 0) = ''first'' \<and>
   selection (add_branch (Some ''B3'') 0 demo_app) = Some (BranchItem 2) \<and>
   current_branch (add_branch (Some ''B3'') 0 demo_app) = Some 2 \<and>
   prompt_text (add_branch (Some ''B3'') 0 demo_app) = ''A futuristic city skyline at sunset'' \<and>
   prompt (branches (add_branch (Some ''B3'') 0 demo_app) ! 0) = ''first'' \<and>
   prompt (branches (on_tree_select (add_branch (Some ''B3'') 0 demo_app)) ! 0) = ''first''"
proof -
  let ?a = "add_branch (Some ''B3'') 0 demo_app"
  have d: "current_branch demo_app = Some 0" "prompt_text demo_app = ''first, edited''"
    "prompt (branches demo_app ! 0) = ''first''" "length (branches demo_app) = 2"
    by (simp_all add: demo_app_def)
  have b0: "prompt (branches ?a ! 0) = ''first''"
    using d by (simp add: add_branch_demo_fields nth_append)
  have "branches (on_tree_select ?a) = branches (persist_prompt ?a)"
    by (simp add: on_tree_select_def Let_def split: option.splits node.splits)
  also have "\<dots> = (branches ?a)[2 := (branches ?a ! 2)
      \<lparr>prompt := rstrip_nl (text_get_all (prompt_text ?a))\<rparr>]"
    by (simp add: persist_prompt_def add_branch_demo_fields(3))
  finally have "prompt (branches (on_tree_select ?a) ! 0) = prompt (branches ?a ! 0)"
    by simp
  then show ?thesis
    using d b0 by (simp add: add_branch_demo_fields)
qed

section \<open>Properties of saving and loading\<close>

lemma read_json_makedirs: "makedirs e p = Inr e1 \<Longrightarrow> read_json e1 q = read_json e q"
  by (auto simp: makedirs_def read_json_def read_file_def split: if_splits option.splits)

text \<open>
  Claim C10. When the chosen manifest is missing, cannot be read or is not JSON,
  \<open>load_project\<close> shows the load error and leaves branches, images, story, prompt field,
  selection, tree and \<open>node_data\<close> as they were; only the project name field has
  already been set to the folder's name. When the manifest is read and parsed the old
  state is cleared first: the result is that of loading into the initial state.
\<close>

theorem load_failure_keeps_project:
  "makedirs e (desktop_scanner_folder e) = Inr e1 \<Longrightarrow> filename \<noteq> [] \<Longrightarrow>
   (files e filename = None \<or> filename \<in> unreadable e \<or> (\<exists>s. files e filename = Some (Blob s)) \<longrightarrow>
      load_project filename a e =
        ([ShowError ''Load Error''], a\<lparr>project_name_var := basename (dirname filename)\<rparr>, e1)) \<and>
   (\<forall>m. files e filename = Some (Doc m) \<and> filename \<notin> unreadable e \<longrightarrow>
      load_project filename a e = load_project filename initial_app e)"
proof -
  assume m: "makedirs e (desktop_scanner_folder e) = Inr e1" and f: "filename \<noteq> []"
  have r: "read_json e1 filename = read_json e filename"
    using m by (rule read_json_makedirs)
  have c: "clear_project_data (a\<lparr>project_name_var := n\<rparr>) = clear_project_data (initial_app\<lparr>project_name_var := n\<rparr>)" for n
    by (simp add: clear_project_data_def initial_app_def)
  have 1: "load_project filename a e =
        ([ShowError ''Load Error''], a\<lparr>project_name_var := basename (dirname filename)\<rparr>, e1)"
    if "files e filename = None \<or> filename \<in> unreadable e \<or> (\<exists>s. files e filename = Some (Blob s))"
  proof -
    have "\<exists>err. read_json e filename = Inl err"
      using that by (auto simp: read_json_def read_file_def split: option.splits)
    then show ?thesis
      using m f r by (auto simp: load_project_def Let_def)
  qed
  have 2: "load_project filename a e = load_project filename initial_app e"
    if "files e filename = Some (Doc m)" "filename \<notin> unreadable e" for m
  proof -
    have "read_json e filename = Inr m"
      using that by (simp add: read_json_def read_file_def)
    then show ?thesis
      using m f r by (simp add: load_project_def Let_def c)
  qed
  show ?thesis using 1 2 by blast
qed

text \<open>The manifest of the older project folder is not JSON.\<close>

theorem load_failure_keeps_project_witness:
  "makedirs demo_env (desktop_scanner_folder demo_env) = Inr demo_env \<and>
   files demo_env ''/home/u/Desktop/Scanner/old/project.json'' = Some (Blob ''{'') \<and>
   load_project ''/home/u/Desktop/Scanner/old/project.json'' demo_app demo_env =
     ([ShowError ''Load Error''], demo_app\<lparr>project_name_var := ''old''\<rparr>, demo_env)"
proof -
  have m: "makedirs demo_env (desktop_scanner_folder demo_env) = Inr demo_env"
    by (simp add: makedirs_def desktop_scanner_folder_def path_join_def demo_env_def)
  have f: "files demo_env ''/home/u/Desktop/Scanner/old/project.json'' = Some (Blob ''{'')"
    by (simp add: demo_env_def)
  have n: "basename (dirname ''/home/u/Desktop/Scanner/old/project.json'') = ''old''"
    by (simp add: basename_def dirname_def)
  show ?thesis
    using load_failure_keeps_project [OF m, of "''/home/u/Desktop/Scanner/old/project.json''" demo_app] f m n
    by simp
qed

text \<open>
  Claim C6. When the project folder for the chosen name (the stripped name field, or the
  dialog's answer when that field is blank) already exists, \<open>save_project\<close> shows the
  save error and returns the environment unchanged: no directory is created, no file is
  copied and no manifest is written.
\<close>

theorem save_existing_directory_untouched:
  "(strip (project_name_var a) = project_name \<and> project_name \<noteq> []) \<or>
   (strip (project_name_var a) = [] \<and> answer = Some project_name \<and> project_name \<noteq> []) \<Longrightarrow>
   path_exists e (path_join (desktop_scanner_folder e) project_name) \<Longrightarrow>
   fst (save_project answer a e) = [ShowError ''Save Error''] \<and>
   snd (snd (save_project answer a e)) = e"
proof -
  assume n: "(strip (project_name_var a) = project_name \<and> project_name \<noteq> []) \<or>
   (strip (project_name_var a) = [] \<and> answer = Some project_name \<and> project_name \<noteq> [])"
    and x: "path_exists e (path_join (desktop_scanner_folder e) project_name)"
  have v: "project_name_var (persist_prompt a) = project_name_var a"
    by (simp add: persist_prompt_def split: option.splits)
  have t: "save_to project_name b e = ([ShowError ''Save Error''], b, e)" for b
    using x by (simp add: save_to_def)
  from n show ?thesis
  proof
    assume "strip (project_name_var a) = project_name \<and> project_name \<noteq> []"
    then show ?thesis by (simp add: save_project_def Let_def v t)
  next
    assume "strip (project_name_var a) = [] \<and> answer = Some project_name \<and> project_name \<noteq> []"
    then show ?thesis by (simp add: save_project_def Let_def v t)
  qed
qed

text \<open>The name field holds the name of the existing folder, with blanks around it.\<close>

theorem save_existing_directory_untouched_witness:
  "strip (project_name_var demo_app) = ''old'' \<and>
   path_exists demo_env (path_join (desktop_scanner_folder demo_env) ''old'') \<and>
   fst (save_project None demo_app demo_env) = [ShowError ''Save Error''] \<and>
   snd (snd (save_project None demo_app demo_env)) = demo_env"
proof -
  have s: "strip (project_name_var demo_app) = ''old''"
    by (simp add: demo_app_def strip_def isspace_def)
  have p: "path_exists demo_env (path_join (desktop_scanner_folder demo_env) ''old'')"
    by (simp add: path_exists_def desktop_scanner_folder_def path_join_def demo_env_def)
  show ?thesis
    using save_existing_directory_untouched [of demo_app "''old''" None demo_env] s p by simp
qed

subsection \<open>A copy that fails does not end the save\<close>

lemma copy2_keeps:
  "copy2 e src dst = Inr e1 \<Longrightarrow>
   dirs e1 = dirs e \<and> unwritable e1 = unwritable e \<and> unreadable e1 = unreadable e \<and> home e1 = home e"
  by (auto simp: copy2_def write_file_def read_file_def Let_def split: if_splits option.splits sum.splits)

lemma copy_images_keeps:
  "copy_images pp imgs e = (evs, names, e') \<Longrightarrow>
   dirs e' = dirs e \<and> unwritable e' = unwritable e \<and> unreadable e' = unreadable e \<and> home e' = home e"
proof (induction imgs arbitrary: e evs names e')
  case Nil
  then show ?case by simp
next
  case (Cons img rest)
  show ?case
  proof (cases "copy2 e (original_path img) (path_join pp (basename (original_path img)))")
    case (Inl err)
    with Cons.prems Cons.IH [of e] show ?thesis
      by (auto simp: Let_def split: prod.splits)
  next
    case (Inr e1)
    with Cons.prems Cons.IH [of e1] copy2_keeps [OF Inr] show ?thesis
      by (auto simp: Let_def split: prod.splits)
  qed
qed


lemma save_branches_keeps:
  "save_branches pp bs e = (evs, bs', e') \<Longrightarrow>
   dirs e' = dirs e \<and> unwritable e' = unwritable e \<and> unreadable e' = unreadable e \<and> home e' = home e"
proof (induction bs arbitrary: e evs bs' e')
  case Nil
  then show ?case by simp
next
  case (Cons b rest)
  obtain evs1 names e1 where c: "copy_images pp (images b) e = (evs1, names, e1)"
    by (cases "copy_images pp (images b) e") auto
  obtain evs2 rest' e2 where s: "save_branches pp rest e1 = (evs2, rest', e2)"
    by (cases "save_branches pp rest e1") auto
  from Cons.prems c s have "e' = e2" by simp
  then show ?case
    using copy_images_keeps [OF c] Cons.IH [OF s] by simp
qed


lemma persist_prompt_fields:
  "project_name_var (persist_prompt a) = project_name_var a"
  "story_text (persist_prompt a) = story_text a"
  by (simp_all add: persist_prompt_def split: option.splits)

lemma save_project_save_to:
  assumes "(strip (project_name_var a) = project_name \<and> project_name \<noteq> []) \<or>
     (strip (project_name_var a) = [] \<and> answer = Some project_name \<and> project_name \<noteq> [])"
  shows "\<exists>a1. save_project answer a e = save_to project_name a1 e \<and>
     branches a1 = branches (persist_prompt a) \<and> story_text a1 = story_text a"
  using assms
proof
  assume "strip (project_name_var a) = project_name \<and> project_name \<noteq> []"
  then have "save_project answer a e = save_to project_name (persist_prompt a) e"
    by (simp add: save_project_def Let_def persist_prompt_fields)
  then show ?thesis by (auto simp: persist_prompt_fields)
next
  assume "strip (project_name_var a) = [] \<and> answer = Some project_name \<and> project_name \<noteq> []"
  then have "save_project answer a e =
      save_to project_name (persist_prompt a\<lparr>project_name_var := project_name\<rparr>) e"
    by (simp add: save_project_def Let_def persist_prompt_fields)
  then show ?thesis by (auto simp: persist_prompt_fields)
qed


lemma save_to_unfold:
  assumes "\<not> path_exists e (path_join (desktop_scanner_folder e) project_name)"
    and "makedirs e (path_join (desktop_scanner_folder e) project_name) = Inr e1"
    and "save_branches (path_join (desktop_scanner_folder e) project_name) (branches a) e1 = (evs, bs', e2)"
  shows "save_to project_name a e =
     (case write_file e2 (path_join (path_join (desktop_scanner_folder e) project_name) ''project.json'')
             (Doc (json_obj_of (rstrip_nl (text_get_all (story_text a))) bs')) of
        Inl err \<Rightarrow> (evs @ [ShowError ''Save Error''], a\<lparr>branches := bs'\<rparr>, e2)
      | Inr e3 \<Rightarrow> (evs @ [ShowInfo ''Save Successful''], a\<lparr>branches := bs'\<rparr>, e3))"
  apply (subst save_to_def)
  apply (simp only: Let_def assms if_False sum.case prod.case)
  done




lemma demo_new_branches:
  "branches (persist_prompt demo_app_new) =
     [\<lparr>name = ''Intro'', prompt = ''first, edited'', image_paths = [], images = []\<rparr>,
      \<lparr>name = ''Forest'', prompt = ''second'', image_paths = [],
       images = [\<lparr>original_path = ''/pics/a.png'', image_bytes = Blob ''A''\<rparr>,
                 \<lparr>original_path = ''/pics/b.png'', image_bytes = Blob ''B''\<rparr>]\<rparr>]"
  by (simp add: persist_prompt_def demo_app_new_def demo_app_def rstrip_nl_def text_get_all_def)



section \<open>The limit of two images per branch\<close>

text \<open>
  The loops of \<open>upload_images\<close> and \<open>load_project\<close> only append images to the branch they
  work on, at most one per file name; \<open>persist_prompt\<close> and saving leave the images alone.
\<close>

lemma images_persist_prompt: "map images (branches (persist_prompt a)) = map images (branches a)"
proof (cases "current_branch a")
  case None
  then show ?thesis by (simp add: persist_prompt_def)
next
  case (Some i)
  show ?thesis
  proof (cases "i < length (branches a)")
    case True
    then show ?thesis using Some by (simp add: persist_prompt_def map_update list_update_same_conv)
  next
    case False
    then show ?thesis using Some by (simp add: persist_prompt_def not_less list_update_beyond)
  qed
qed

lemma images_add_image_node:
  assumes "add_image_node bi i img k a = r"
  shows "map images (branches (case r of Inl x \<Rightarrow> x | Inr x \<Rightarrow> x)) =
     (map images (branches a))[i := (map images (branches a) ! i) @ [img]]"
proof -
  have "map images (branches (case r of Inl x \<Rightarrow> x | Inr x \<Rightarrow> x)) =
     (map images (branches a))[i := images (branches a ! i) @ [img]]"
    using assms by (auto simp: add_image_node_def Let_def map_update split: option.splits)
  then show ?thesis
    by (cases "i < length (branches a)") (simp_all add: not_less list_update_beyond)
qed

lemma grow_compose:
  assumes "m1 = m[i := (m ! i) @ n1]" and "m2 = m1[i := (m1 ! i) @ n2]"
  shows "m2 = m[i := (m ! i) @ n1 @ n2]"
proof (cases "i < length m")
  case True
  then show ?thesis using assms by simp
next
  case False
  then show ?thesis using assms by (simp add: list_update_beyond not_less)
qed

lemma images_upload_loop:
  "upload_loop e bi i fnames k a = (evs, a') \<Longrightarrow>
   \<exists>new. length new \<le> length fnames \<and>
     map images (branches a') = (map images (branches a))[i := (map images (branches a) ! i) @ new]"
proof (induction fnames arbitrary: k a evs a')
  case Nil
  then have "a' = a" by simp
  then show ?case by (intro exI [of _ "[]"]) simp
next
  case (Cons fname rest)
  show ?case
  proof (cases "read_file e fname")
    case (Inl err)
    obtain evs1 a1 where u: "upload_loop e bi i rest k a = (evs1, a1)"
      by (cases "upload_loop e bi i rest k a") auto
    with Cons.prems Inl have "a' = a1" by simp
    with Cons.IH [OF u] obtain new where "length new \<le> length rest"
      "map images (branches a') = (map images (branches a))[i := (map images (branches a) ! i) @ new]"
      by blast
    then show ?thesis by (intro exI [of _ new]) simp
  next
    case (Inr c)
    let ?img = "\<lparr>original_path = fname, image_bytes = c\<rparr>"
    let ?m = "map images (branches a)"
    show ?thesis
    proof (cases "add_image_node bi i ?img k a")
      case (Inl a1)
      with Cons.prems Inr have "a' = a1" by simp
      with images_add_image_node [OF Inl]
      have "map images (branches a') = ?m[i := (?m ! i) @ [?img]]"
        by simp
      then show ?thesis by (intro exI [of _ "[?img]"]) simp
    next
      case a1: (Inr a1)
      from images_add_image_node [OF a1]
      have 1: "map images (branches a1) = ?m[i := (?m ! i) @ [?img]]"
        by simp
      from Cons.prems Inr a1 have "upload_loop e bi i rest (k + 1) a1 = (evs, a')" by simp
      from Cons.IH [OF this] obtain new where n: "length new \<le> length rest"
        and 2: "map images (branches a') =
           (map images (branches a1))[i := (map images (branches a1) ! i) @ new]"
        by blast
      have "map images (branches a') = ?m[i := (?m ! i) @ [?img] @ new]"
        using grow_compose [OF 1 2] .
      then show ?thesis using n by (intro exI [of _ "[?img] @ new"]) simp
    qed
  qed
qed

lemma images_load_images:
  "load_images e pp bi i names k a = r \<Longrightarrow>
   \<exists>new. length new \<le> length names \<and>
     map images (branches (case r of Inl x \<Rightarrow> x | Inr x \<Rightarrow> x)) =
       (map images (branches a))[i := (map images (branches a) ! i) @ new]"
proof (induction names arbitrary: k a r)
  case Nil
  then show ?case by (intro exI [of _ "[]"]) auto
next
  case (Cons img_name rest)
  let ?p = "path_join pp img_name"
  let ?m = "map images (branches a)"
  consider (skip) "load_images e pp bi i (img_name # rest) k a = load_images e pp bi i rest k a"
    | (take) c where "path_exists e ?p" "read_file e ?p = Inr c"
    by (cases "path_exists e ?p"; cases "read_file e ?p") (auto simp: Let_def)
  then show ?case
  proof cases
    case skip
    with Cons.prems have "load_images e pp bi i rest k a = r" by simp
    from Cons.IH [OF this] obtain new where "length new \<le> length rest"
      "map images (branches (case r of Inl x \<Rightarrow> x | Inr x \<Rightarrow> x)) =
         (map images (branches a))[i := (map images (branches a) ! i) @ new]"
      by blast
    then show ?thesis by (intro exI [of _ new]) simp
  next
    case take
    let ?img = "\<lparr>original_path = ?p, image_bytes = c\<rparr>"
    show ?thesis
    proof (cases "add_image_node bi i ?img k a")
      case (Inl a1)
      with Cons.prems take have "r = Inl a1" by (simp add: Let_def)
      with images_add_image_node [OF Inl]
      have "map images (branches (case r of Inl x \<Rightarrow> x | Inr x \<Rightarrow> x)) = ?m[i := (?m ! i) @ [?img]]"
        by simp
      then show ?thesis by (intro exI [of _ "[?img]"]) simp
    next
      case a1: (Inr a1)
      from images_add_image_node [OF a1]
      have 1: "map images (branches a1) = ?m[i := (?m ! i) @ [?img]]"
        by simp
      from Cons.prems take a1 have "load_images e pp bi i rest (k + 1) a1 = r"
        by (simp add: Let_def)
      from Cons.IH [OF this] obtain new where n: "length new \<le> length rest"
        and 2: "map images (branches (case r of Inl x \<Rightarrow> x | Inr x \<Rightarrow> x)) =
           (map images (branches a1))[i := (map images (branches a1) ! i) @ new]"
        by blast
      have "map images (branches (case r of Inl x \<Rightarrow> x | Inr x \<Rightarrow> x)) = ?m[i := (?m ! i) @ [?img] @ new]"
        using grow_compose [OF 1 2] .
      then show ?thesis using n by (intro exI [of _ "[?img] @ new"]) simp
    qed
  qed
qed

lemma limit_grow:
  assumes "\<forall>x \<in> set m. length x \<le> (2::nat)"
    and "i < length m \<longrightarrow> length (m ! i) + length new \<le> 2"
  shows "\<forall>x \<in> set (m[i := (m ! i) @ new]). length x \<le> 2"
proof (cases "i < length m")
  case True
  have "set (m[i := (m ! i) @ new]) \<subseteq> insert ((m ! i) @ new) (set m)"
    by (rule set_update_subset_insert)
  then show ?thesis using assms True by auto
next
  case False
  then show ?thesis using assms by (simp add: not_less list_update_beyond)
qed

lemma limit_images:
  "(\<forall>b \<in> set bs. length (images b) \<le> 2) \<longleftrightarrow> (\<forall>x \<in> set (map images bs). length x \<le> 2)"
  by simp

lemma limit_upload_images:
  assumes "\<forall>b \<in> set (branches a). length (images b) \<le> 2"
  shows "\<forall>b \<in> set (branches (snd (upload_images filenames e a))). length (images b) \<le> 2"
proof (cases "selection a")
  case None
  then show ?thesis using assms by (simp add: upload_images_def)
next
  case (Some selected)
  let ?bi = "get_branch_item_for selected"
  show ?thesis
  proof (cases "\<exists>i. node_data a ?bi = Some (BranchRef i)")
    case False
    then have "snd (upload_images filenames e a) = a"
      using Some by (auto simp: upload_images_def Let_def split: option.splits node.splits)
    then show ?thesis using assms by simp
  next
    case True
    then obtain i where i: "node_data a ?bi = Some (BranchRef i)" by blast
    let ?n = "length (images (branches a ! i))"
    show ?thesis
    proof (cases "filenames = [] \<or> ?n + length filenames > 2")
      case True
      then have "snd (upload_images filenames e a) = a"
        using Some i by (auto simp: upload_images_def Let_def)
      then show ?thesis using assms by simp
    next
      case False
      then have u: "upload_images filenames e a = upload_loop e ?bi i filenames (?n + 1) a"
        using Some i by (simp add: upload_images_def Let_def)
      obtain evs a' where l: "upload_loop e ?bi i filenames (?n + 1) a = (evs, a')"
        by (cases "upload_loop e ?bi i filenames (?n + 1) a") auto
      from images_upload_loop [OF l] obtain new where n: "length new \<le> length filenames"
        and m: "map images (branches a') =
          (map images (branches a))[i := (map images (branches a) ! i) @ new]"
        by blast
      have "\<forall>x \<in> set ((map images (branches a))[i := (map images (branches a) ! i) @ new]). length x \<le> 2"
      proof (rule limit_grow)
        show "\<forall>x \<in> set (map images (branches a)). length x \<le> 2" using assms by simp
        show "i < length (map images (branches a)) \<longrightarrow>
            length (map images (branches a) ! i) + length new \<le> 2"
          using False n by auto
      qed
      then have "\<forall>b \<in> set (branches a'). length (images b) \<le> 2"
        unfolding limit_images m .
      then show ?thesis unfolding u l by simp
    qed
  qed
qed

lemma images_copy_branches:
  "save_branches pp bs e = (evs, bs', e') \<Longrightarrow> map images bs' = map images bs"
proof (induction bs arbitrary: e evs bs' e')
  case Nil
  then show ?case by simp
next
  case (Cons b rest)
  obtain evs1 names e1 where c: "copy_images pp (images b) e = (evs1, names, e1)"
    by (cases "copy_images pp (images b) e") auto
  obtain evs2 rest' e2 where s: "save_branches pp rest e1 = (evs2, rest', e2)"
    by (cases "save_branches pp rest e1") auto
  from Cons.prems c s have "bs' = b\<lparr>image_paths := names\<rparr> # rest'" by simp
  then show ?case using Cons.IH [OF s] by simp
qed

lemma images_save_to:
  "map images (branches (fst (snd (save_to project_name a e)))) = map images (branches a)"
proof -
  let ?pp = "path_join (desktop_scanner_folder e) project_name"
  show ?thesis
  proof (cases "path_exists e ?pp")
    case True
    then show ?thesis by (simp add: save_to_def)
  next
    case False
    show ?thesis
    proof (cases "makedirs e ?pp")
      case (Inl err)
      then show ?thesis using False by (simp add: save_to_def)
    next
      case (Inr e1)
      obtain evs bs' e2 where b: "save_branches ?pp (branches a) e1 = (evs, bs', e2)"
        by (cases "save_branches ?pp (branches a) e1") auto
      show ?thesis
        unfolding save_to_unfold [OF False Inr b]
        using images_copy_branches [OF b] by (simp split: sum.splits)
    qed
  qed
qed

lemma images_save_project:
  "map images (branches (fst (snd (save_project answer a e)))) = map images (branches a)"
proof -
  have "\<exists>a1. fst (snd (save_project answer a e)) = a1 \<and>
      map images (branches a1) = map images (branches (persist_prompt a))"
    by (auto simp: save_project_def Let_def images_save_to split: option.splits)
  then show ?thesis by (auto simp: images_persist_prompt)
qed

lemma limit_load_branches:
  assumes "load_branches e pp bjs a = r"
    and "\<forall>b \<in> set (branches a). length (images b) \<le> 2"
    and "\<forall>b \<in> set bjs. length (case ImagePaths b of None \<Rightarrow> [] | Some ps \<Rightarrow> ps) \<le> 2"
  shows "\<forall>b \<in> set (branches (case r of Inl x \<Rightarrow> x | Inr x \<Rightarrow> x)). length (images b) \<le> 2"
  using assms
proof (induction bjs arbitrary: a r)
  case Nil
  then show ?case by auto
next
  case (Cons b rest)
  let ?nm = "case Name b of None \<Rightarrow> ''Branch'' | Some n \<Rightarrow> n"
  let ?pr = "case Prompt b of None \<Rightarrow> [] | Some p \<Rightarrow> p"
  let ?ps = "case ImagePaths b of None \<Rightarrow> [] | Some ps \<Rightarrow> ps"
  let ?i = "length (branches a)"
  let ?a1 = "a\<lparr>branches := branches a @ [\<lparr>name = ?nm, prompt = ?pr, image_paths = ?ps, images = []\<rparr>],
       tree := tree a @ [(?nm, [])],
       node_data := (node_data a)(BranchItem (length (tree a)) \<mapsto> BranchRef ?i)\<rparr>"
  let ?r1 = "load_images e pp (BranchItem (length (tree a))) ?i ?ps 1 ?a1"
  let ?a2 = "case ?r1 of Inl x \<Rightarrow> x | Inr x \<Rightarrow> x"
  have step: "load_branches e pp (b # rest) a =
      (case ?r1 of Inl a2 \<Rightarrow> Inl a2 | Inr a2 \<Rightarrow> load_branches e pp rest a2)"
    by (simp add: Let_def tree_insert_root_def)
  from images_load_images [of e pp _ ?i ?ps 1 ?a1 ?r1] obtain new
    where n: "length new \<le> length ?ps"
      and m: "map images (branches ?a2) =
        (map images (branches ?a1))[?i := (map images (branches ?a1) ! ?i) @ new]"
    by blast
  have "map images (branches ?a2) = map images (branches a) @ [new]"
    unfolding m using list_update_length [of "map images (branches a)" "[]" "[]" new]
    by (simp add: nth_append)
  moreover have "length new \<le> 2" using n Cons.prems(3) by simp
  ultimately have l2: "\<forall>b \<in> set (branches ?a2). length (images b) \<le> 2"
    unfolding limit_images using Cons.prems(2) by auto
  show ?case
  proof (cases ?r1)
    case (Inl a2)
    then have "r = Inl a2" using Cons.prems(1) step by simp
    then show ?thesis using l2 Inl by simp
  next
    case (Inr a2)
    then have "load_branches e pp rest a2 = r" using Cons.prems(1) step by simp
    from Cons.IH [OF this] l2 Inr Cons.prems(3) show ?thesis by simp
  qed
qed

lemma limit_load_project:
  assumes "\<forall>b \<in> set (branches a). length (images b) \<le> 2"
    and "manifest_within_limit e filename"
  shows "\<forall>b \<in> set (branches (fst (snd (load_project filename a e)))). length (images b) \<le> 2"
proof (cases "makedirs e (desktop_scanner_folder e)")
  case (Inl err)
  then show ?thesis using assms by (simp add: load_project_def)
next
  case (Inr e1)
  show ?thesis
  proof (cases "filename = []")
    case True
    then show ?thesis using assms Inr by (simp add: load_project_def)
  next
    case False
    show ?thesis
    proof (cases "read_json e1 filename")
      case (Inl err)
      then show ?thesis using assms Inr False by (simp add: load_project_def Let_def)
    next
      case m: (Inr json_obj)
      let ?bjs = "case Branches json_obj of None \<Rightarrow> [] | Some bs \<Rightarrow> bs"
      let ?a1 = "a\<lparr>project_name_var := basename (dirname filename)\<rparr>"
      let ?a3 = "(clear_project_data ?a1)
          \<lparr>story_text := (case Story json_obj of None \<Rightarrow> [] | Some s \<Rightarrow> s) @
             story_text (clear_project_data ?a1)\<rparr>"
      let ?r = "load_branches e1 (dirname filename) ?bjs ?a3"
      have "read_json e filename = Inr json_obj"
        using m read_json_makedirs [OF Inr] by simp
      then have w: "\<forall>b \<in> set ?bjs. length (case ImagePaths b of None \<Rightarrow> [] | Some ps \<Rightarrow> ps) \<le> 2"
        using assms(2) by (simp add: manifest_within_limit_def list_all_iff)
      have c: "\<forall>b \<in> set (branches ?a3). length (images b) \<le> 2"
        by (simp add: clear_project_data_def)
      have "fst (snd (load_project filename a e)) = (case ?r of Inl x \<Rightarrow> x | Inr x \<Rightarrow> x)"
        using Inr False m by (simp add: load_project_def Let_def split: sum.splits)
      then show ?thesis
        using limit_load_branches [OF refl c w] by simp
    qed
  qed
qed

text \<open>
  Claim C3, as stated, fails: \<open>load_project\<close> applies no limit. A manifest that lists three
  image files, all present, gives a branch of three images.
\<close>

theorem load_exceeds_image_limit_counterexample:
  "map (\<lambda>b. map original_path (images b))
     (branches (fst (snd (load_project ''/home/u/Desktop/Scanner/big/project.json'' initial_app
        demo_env_three)))) =
   [[''/home/u/Desktop/Scanner/big/a.png'', ''/home/u/Desktop/Scanner/big/b.png'',
     ''/home/u/Desktop/Scanner/big/c.png'']] \<and>
   length (images (branches (fst (snd (load_project ''/home/u/Desktop/Scanner/big/project.json''
     initial_app demo_env_three))) ! 0)) = 3"
proof -
  have m: "makedirs demo_env_three (desktop_scanner_folder demo_env_three) = Inr demo_env_three"
    by (simp add: makedirs_def desktop_scanner_folder_def path_join_def demo_env_three_def)
  have d: "dirname ''/home/u/Desktop/Scanner/big/project.json'' = ''/home/u/Desktop/Scanner/big''"
    by (simp add: dirname_def)
  have r: "read_json demo_env_three ''/home/u/Desktop/Scanner/big/project.json'' =
      Inr \<lparr>Story = Some ''Once'',
           Branches = Some [\<lparr>Name = Some ''Forest'', Prompt = Some ''second'',
                              ImagePaths = Some [''a.png'', ''b.png'', ''c.png'']\<rparr>]\<rparr>"
    by (simp add: read_json_def read_file_def demo_env_three_def)
  have p: "path_join ''/home/u/Desktop/Scanner/big'' ''a.png'' = ''/home/u/Desktop/Scanner/big/a.png''"
    "path_join ''/home/u/Desktop/Scanner/big'' ''b.png'' = ''/home/u/Desktop/Scanner/big/b.png''"
    "path_join ''/home/u/Desktop/Scanner/big'' ''c.png'' = ''/home/u/Desktop/Scanner/big/c.png''"
    by (simp_all add: path_join_def)
  have f: "read_file demo_env_three ''/home/u/Desktop/Scanner/big/a.png'' = Inr (Blob ''A'')"
    "read_file demo_env_three ''/home/u/Desktop/Scanner/big/b.png'' = Inr (Blob ''B'')"
    "read_file demo_env_three ''/home/u/Desktop/Scanner/big/c.png'' = Inr (Blob ''C'')"
    "path_exists demo_env_three ''/home/u/Desktop/Scanner/big/a.png''"
    "path_exists demo_env_three ''/home/u/Desktop/Scanner/big/b.png''"
    "path_exists demo_env_three ''/home/u/Desktop/Scanner/big/c.png''"
    by (simp_all add: read_file_def path_exists_def demo_env_three_def)
  have "branches (fst (snd (load_project ''/home/u/Desktop/Scanner/big/project.json'' initial_app
        demo_env_three))) =
      [\<lparr>name = ''Forest'', prompt = ''second'', image_paths = [''a.png'', ''b.png'', ''c.png''],
        images = [\<lparr>original_path = ''/home/u/Desktop/Scanner/big/a.png'', image_bytes = Blob ''A''\<rparr>,
                  \<lparr>original_path = ''/home/u/Desktop/Scanner/big/b.png'', image_bytes = Blob ''B''\<rparr>,
                  \<lparr>original_path = ''/home/u/Desktop/Scanner/big/c.png'', image_bytes = Blob ''C''\<rparr>]\<rparr>]"
    by (simp add: load_project_def m d r p f Let_def clear_project_data_def initial_app_def
        tree_insert_root_def add_image_node_def)
  then show ?thesis by simp
qed

text \<open>
  Claim C3, amended. Every branch has at most 2 images in every state reached from the
  initial one by adding branches, selecting, editing the text fields, uploading, saving,
  and loading manifests that list at most two image paths per branch.
\<close>

theorem image_limit_preserved:
  "reachable a \<Longrightarrow> \<forall>b \<in> set (branches a). length (images b) \<le> 2"
proof (induction rule: reachable.induct)
  case start
  show ?case by (simp add: initial_app_def)
next
  case (add a answer r)
  then show ?case
    by (auto simp: add_branch_def tree_insert_root_def Let_def split: option.splits)
next
  case (select a sel)
  have "map images (branches (user_select sel a)) = map images (branches (persist_prompt (a\<lparr>selection := sel\<rparr>)))"
    by (simp add: user_select_def on_tree_select_def Let_def split: option.splits node.splits)
  also have "\<dots> = map images (branches a)"
    by (simp add: images_persist_prompt)
  finally show ?case using select.IH unfolding limit_images by simp
next
  case (edit a s p n)
  then show ?case by simp
next
  case (upload a filenames e)
  from upload.IH show ?case by (rule limit_upload_images)
next
  case (save a answer e)
  from save.IH show ?case unfolding limit_images images_save_project .
next
  case (load a e filename)
  from load.IH load.hyps(2) show ?case by (rule limit_load_project)
qed

text \<open>A branch is added and two pictures are uploaded to it.\<close>

theorem image_limit_preserved_witness:
  "reachable (snd (upload_images [''/pics/a.png'', ''/pics/b.png''] demo_env
      (add_branch (Some ''Intro'') 0 initial_app))) \<and>
   map (\<lambda>b. map original_path (images b))
     (branches (snd (upload_images [''/pics/a.png'', ''/pics/b.png''] demo_env
        (add_branch (Some ''Intro'') 0 initial_app)))) = [[''/pics/a.png'', ''/pics/b.png'']] \<and>
   length (images (branches (snd (upload_images [''/pics/a.png'', ''/pics/b.png''] demo_env
      (add_branch (Some ''Intro'') 0 initial_app))) ! 0)) \<le> 2"
proof -
  let ?a = "snd (upload_images [''/pics/a.png'', ''/pics/b.png''] demo_env
      (add_branch (Some ''Intro'') 0 initial_app))"
  have r: "reachable ?a"
    by (intro reachable.upload reachable.add reachable.start)
  have f: "read_file demo_env ''/pics/a.png'' = Inr (Blob ''A'')"
    "read_file demo_env ''/pics/b.png'' = Inr (Blob ''B'')"
    by (simp_all add: read_file_def demo_env_def)
  have b: "map (\<lambda>b. map original_path (images b)) (branches ?a) = [[''/pics/a.png'', ''/pics/b.png'']]"
    by (simp add: upload_images_def add_branch_def initial_app_def tree_insert_root_def Let_def
        get_branch_item_for_root f add_image_node_def)
  then have "branches ?a \<noteq> []" by auto
  then have "branches ?a ! 0 \<in> set (branches ?a)" by simp
  then have "length (images (branches ?a ! 0)) \<le> 2"
    using image_limit_preserved [OF r] by blast
  then show ?thesis using r b by simp
qed

section \<open>Saving and loading again\<close>

subsection \<open>Paths\<close>

lemma basename_no_slash: "CHR ''/'' \<notin> set (basename p)"
proof -
  have "CHR ''/'' \<notin> set (takeWhile (\<lambda>c. c \<noteq> CHR ''/'') (rev p))"
    using set_takeWhileD by fastforce
  then show ?thesis by (simp add: basename_def)
qed

lemma basename_append_slash:
  "CHR ''/'' \<notin> set n \<Longrightarrow> basename (p @ ''/'' @ n) = n"
proof -
  assume n: "CHR ''/'' \<notin> set n"
  have "takeWhile (\<lambda>c. c \<noteq> CHR ''/'') (rev n @ CHR ''/'' # rev p) = rev n"
    using n by (subst takeWhile_append2) auto
  then show ?thesis by (simp add: basename_def)
qed

lemma path_join_plain:
  "a \<noteq> [] \<Longrightarrow> last a \<noteq> CHR ''/'' \<Longrightarrow> CHR ''/'' \<notin> set n \<Longrightarrow> path_join a n = a @ ''/'' @ n"
  by (cases n) (auto simp: path_join_def)

lemma path_join_last:
  "n \<noteq> [] \<Longrightarrow> last n \<noteq> CHR ''/'' \<Longrightarrow> path_join a n \<noteq> [] \<and> last (path_join a n) \<noteq> CHR ''/''"
  by (auto simp: path_join_def)

lemma dirname_manifest:
  assumes "a \<noteq> []" and "last a \<noteq> CHR ''/''"
  shows "dirname (path_join a ''project.json'') = a"
proof -
  have j: "path_join a ''project.json'' = a @ ''/'' @ ''project.json''"
    using assms by (intro path_join_plain) simp_all
  have "dropWhile (\<lambda>c. c \<noteq> CHR ''/'') (rev (a @ ''/'' @ ''project.json'')) = CHR ''/'' # rev a"
    by simp
  then have h: "rev (dropWhile (\<lambda>c. c \<noteq> CHR ''/'') (rev (a @ ''/'' @ ''project.json''))) = a @ ''/''"
    by simp
  obtain x xs where r: "rev a = x # xs" using assms(1) by (cases "rev a") auto
  then have a: "a = rev xs @ [x]" by (metis rev_rev_ident rev.simps(2))
  then have x: "x \<noteq> CHR ''/''" using assms(2) by simp
  have ne: "a @ ''/'' \<noteq> replicate (length (a @ ''/'')) CHR ''/''"
  proof
    assume "a @ ''/'' = replicate (length (a @ ''/'')) CHR ''/''"
    then have "set (a @ ''/'') \<subseteq> {CHR ''/''}" by (metis set_replicate_conv_if subset_insertI empty_subsetI order_refl)
    moreover have "x \<in> set a" using a by simp
    ultimately show False using x by auto
  qed
  have "rev (dropWhile (\<lambda>c. c = CHR ''/'') (rev (a @ ''/''))) = a"
    using r x a by simp
  then show ?thesis
    unfolding j dirname_def h Let_def using ne by simp
qed

lemma stored_path_plain:
  "pp \<noteq> [] \<Longrightarrow> last pp \<noteq> CHR ''/'' \<Longrightarrow>
   stored_path pp img = pp @ ''/'' @ basename (original_path img)"
  unfolding stored_path_def by (intro path_join_plain basename_no_slash)

lemma basename_stored_path:
  "pp \<noteq> [] \<Longrightarrow> last pp \<noteq> CHR ''/'' \<Longrightarrow>
   basename (stored_path pp img) = basename (original_path img)"
  by (metis stored_path_plain basename_append_slash basename_no_slash)

lemma stored_path_eq:
  "pp \<noteq> [] \<Longrightarrow> last pp \<noteq> CHR ''/'' \<Longrightarrow>
   stored_path pp img = stored_path pp img' \<longleftrightarrow>
   basename (original_path img) = basename (original_path img')"
  by (simp add: stored_path_plain)

lemma stored_path_manifest:
  "pp \<noteq> [] \<Longrightarrow> last pp \<noteq> CHR ''/'' \<Longrightarrow>
   stored_path pp img = path_join pp ''project.json'' \<longleftrightarrow>
   basename (original_path img) = ''project.json''"
proof -
  assume p: "pp \<noteq> []" "last pp \<noteq> CHR ''/''"
  have "path_join pp ''project.json'' = pp @ ''/'' @ ''project.json''"
    using p by (intro path_join_plain) simp_all
  then show ?thesis using p by (simp add: stored_path_plain)
qed

subsection \<open>The copies of a save, in closed form\<close>

text \<open>
  When the base names are distinct and nothing is stored yet where the copies go, each
  copy succeeds or fails as it would in the environment before the save.
\<close>

lemma readable_files:
  "files e1 p = files e p \<Longrightarrow> unreadable e1 = unreadable e \<Longrightarrow> readable e1 p = readable e p"
  by (simp add: readable_def read_file_def split: option.splits)

lemma readable_none: "files e p = None \<Longrightarrow> \<not> readable e p"
  by (simp add: readable_def read_file_def)

lemma copy2_succeeds:
  "dst \<notin> dirs e \<Longrightarrow> src \<noteq> dst \<Longrightarrow> readable e src \<Longrightarrow> dst \<notin> unwritable e \<Longrightarrow>
   copy2 e src dst = Inr (e\<lparr>files := (files e)(dst := files e src)\<rparr>)"
  by (auto simp: copy2_def readable_def read_file_def write_file_def Let_def
      split: option.splits if_splits)

lemma copy2_fails:
  "dst \<notin> dirs e \<Longrightarrow> \<not> (src \<noteq> dst \<and> readable e src \<and> dst \<notin> unwritable e) \<Longrightarrow>
   \<exists>err. copy2 e src dst = Inl err"
  by (auto simp: copy2_def readable_def read_file_def write_file_def Let_def
      split: option.splits if_splits sum.splits)

lemma copy_images_closed:
  assumes "pp \<noteq> []" and "last pp \<noteq> CHR ''/''"
  shows "distinct (map (\<lambda>img. basename (original_path img)) imgs) \<Longrightarrow>
    \<forall>img \<in> set imgs. files e (stored_path pp img) = None \<and> stored_path pp img \<notin> dirs e \<Longrightarrow>
    copy_images pp imgs e = (evs, names, e') \<Longrightarrow>
    names = map (\<lambda>img. basename (original_path img)) (filter (copy_ok e pp) imgs) \<and>
    (\<forall>img \<in> set imgs. files e' (stored_path pp img) =
        (if copy_ok e pp img then files e (original_path img) else None)) \<and>
    (\<forall>p. p \<notin> stored_path pp ` set imgs \<longrightarrow> files e' p = files e p)"
proof (induction imgs arbitrary: e evs names e')
  case Nil
  then show ?case by simp
next
  case (Cons img rest)
  let ?src = "original_path img"
  let ?dst = "stored_path pp img"
  have d: "?dst \<notin> stored_path pp ` set rest"
    using Cons.prems(1) by (auto simp: stored_path_eq [OF assms])
  have fresh: "files e ?dst = None" "?dst \<notin> dirs e"
    using Cons.prems(2) by simp_all
  have dist: "distinct (map (\<lambda>img. basename (original_path img)) rest)"
    using Cons.prems(1) by simp
  show ?case
  proof (cases "?src \<noteq> ?dst \<and> readable e ?src \<and> ?dst \<notin> unwritable e")
    case False
    then obtain err where c: "copy2 e ?src ?dst = Inl err"
      using copy2_fails [OF fresh(2)] by blast
    have nok: "\<not> copy_ok e pp img"
      using False readable_none [OF fresh(1)] by (auto simp: copy_ok_def)
    obtain evs1 names1 e1 where r: "copy_images pp rest e = (evs1, names1, e1)"
      by (cases "copy_images pp rest e") auto
    from Cons.prems(3) c r have eq: "names = names1" "e' = e1"
      by (simp_all add: stored_path_def Let_def)
    have ih: "names1 = map (\<lambda>img. basename (original_path img)) (filter (copy_ok e pp) rest) \<and>
      (\<forall>img \<in> set rest. files e1 (stored_path pp img) =
          (if copy_ok e pp img then files e (original_path img) else None)) \<and>
      (\<forall>p. p \<notin> stored_path pp ` set rest \<longrightarrow> files e1 p = files e p)"
      using Cons.IH [OF dist _ r] Cons.prems(2) by simp
    have "files e1 ?dst = None" using ih d fresh by simp
    then show ?thesis using ih nok eq by auto
  next
    case True
    let ?e1 = "e\<lparr>files := (files e)(?dst := files e ?src)\<rparr>"
    have c: "copy2 e ?src ?dst = Inr ?e1"
      using True fresh by (intro copy2_succeeds) simp_all
    have ok: "copy_ok e pp img" using True by (simp add: copy_ok_def)
    obtain evs1 names1 e2 where r: "copy_images pp rest ?e1 = (evs1, names1, e2)"
      by (cases "copy_images pp rest ?e1") auto
    from Cons.prems(3) c r have eq: "names = basename ?src # names1" "e' = e2"
      by (simp_all add: stored_path_def Let_def)
    have d': "\<forall>x \<in> set rest. stored_path pp x \<noteq> ?dst"
      using d by (auto simp: image_iff)
    have fr: "\<forall>x \<in> set rest. files ?e1 (stored_path pp x) = None \<and> stored_path pp x \<notin> dirs ?e1"
      using Cons.prems(2) d' by simp
    have src: "original_path x \<noteq> ?dst" if "x \<in> set rest" for x
    proof
      assume "original_path x = ?dst"
      then have "basename (original_path x) = basename (original_path img)"
        by (simp add: basename_stored_path [OF assms])
      then show False using Cons.prems(1) that by (auto simp: image_iff)
    qed
    have same: "copy_ok ?e1 pp x = copy_ok e pp x" "files ?e1 (original_path x) = files e (original_path x)"
      if "x \<in> set rest" for x
      using src [OF that] readable_files [of ?e1 "original_path x" e]
      by (simp_all add: copy_ok_def)
    have ih: "names1 = map (\<lambda>img. basename (original_path img)) (filter (copy_ok ?e1 pp) rest) \<and>
      (\<forall>x \<in> set rest. files e2 (stored_path pp x) =
          (if copy_ok ?e1 pp x then files ?e1 (original_path x) else None)) \<and>
      (\<forall>p. p \<notin> stored_path pp ` set rest \<longrightarrow> files e2 p = files ?e1 p)"
      using Cons.IH [OF dist fr r] .
    have f: "filter (copy_ok ?e1 pp) rest = filter (copy_ok e pp) rest"
      using same by (intro filter_cong) simp_all
    have 1: "names = map (\<lambda>img. basename (original_path img)) (filter (copy_ok e pp) (img # rest))"
      using ih eq ok f by simp
    have 2: "files e' ?dst = files e ?src"
      using ih d eq by simp
    have 3: "\<forall>x \<in> set rest. files e' (stored_path pp x) =
          (if copy_ok e pp x then files e (original_path x) else None)"
      using ih same eq by simp
    have 4: "\<forall>p. p \<notin> stored_path pp ` set (img # rest) \<longrightarrow> files e' p = files e p"
      using ih eq by simp
    show ?thesis using 1 2 3 4 ok by simp
  qed
qed

lemma save_branches_closed:
  assumes "pp \<noteq> []" and "last pp \<noteq> CHR ''/''"
  shows "distinct (map (\<lambda>img. basename (original_path img)) (all_images bs)) \<Longrightarrow>
    \<forall>img \<in> set (all_images bs). files e (stored_path pp img) = None \<and> stored_path pp img \<notin> dirs e \<Longrightarrow>
    save_branches pp bs e = (evs, bs', e') \<Longrightarrow>
    bs' = map (\<lambda>b. b\<lparr>image_paths :=
                 map (\<lambda>img. basename (original_path img)) (filter (copy_ok e pp) (images b))\<rparr>) bs \<and>
    (\<forall>img \<in> set (all_images bs). files e' (stored_path pp img) =
        (if copy_ok e pp img then files e (original_path img) else None)) \<and>
    (\<forall>p. p \<notin> stored_path pp ` set (all_images bs) \<longrightarrow> files e' p = files e p)"
proof (induction bs arbitrary: e evs bs' e')
  case Nil
  then show ?case by (simp add: all_images_def)
next
  case (Cons b rest)
  let ?base = "\<lambda>img. basename (original_path img)"
  have all: "all_images (b # rest) = images b @ all_images rest"
    by (simp add: all_images_def)
  have dist: "distinct (map ?base (images b))" "distinct (map ?base (all_images rest))"
    and disj: "?base ` set (images b) \<inter> ?base ` set (all_images rest) = {}"
    using Cons.prems(1) unfolding all by simp_all
  obtain evs1 names e1 where c: "copy_images pp (images b) e = (evs1, names, e1)"
    by (cases "copy_images pp (images b) e") auto
  obtain evs2 rest' e2 where s: "save_branches pp rest e1 = (evs2, rest', e2)"
    by (cases "save_branches pp rest e1") auto
  from Cons.prems(3) c s have eq: "bs' = b\<lparr>image_paths := names\<rparr> # rest'" "e' = e2"
    by simp_all
  have fb: "\<forall>img \<in> set (images b). files e (stored_path pp img) = None \<and> stored_path pp img \<notin> dirs e"
    using Cons.prems(2) unfolding all by simp
  note cl = copy_images_closed [OF assms dist(1) fb c]
  note k = copy_images_keeps [OF c]
  have apart: "stored_path pp x \<noteq> stored_path pp y" "original_path x \<noteq> stored_path pp y"
    if "x \<in> set (all_images rest)" "y \<in> set (images b)" for x y
  proof -
    have n: "?base x \<noteq> ?base y" using disj that by auto
    then show "stored_path pp x \<noteq> stored_path pp y"
      by (simp add: stored_path_eq [OF assms])
    show "original_path x \<noteq> stored_path pp y"
    proof
      assume "original_path x = stored_path pp y"
      then have "?base x = ?base y" by (simp add: basename_stored_path [OF assms])
      then show False using n by simp
    qed
  qed
  have out: "stored_path pp x \<notin> stored_path pp ` set (images b)"
    "original_path x \<notin> stored_path pp ` set (images b)"
    if "x \<in> set (all_images rest)" for x
    using apart that by (auto simp: image_iff)
  have same: "files e1 (stored_path pp x) = files e (stored_path pp x)"
    "files e1 (original_path x) = files e (original_path x)"
    if "x \<in> set (all_images rest)" for x
    using cl out [OF that] by simp_all
  have ok: "copy_ok e1 pp x = copy_ok e pp x" if "x \<in> set (all_images rest)" for x
    using same(2) [OF that] k readable_files [of e1 "original_path x" e]
    by (simp add: copy_ok_def)
  have fr: "\<forall>img \<in> set (all_images rest). files e1 (stored_path pp img) = None \<and> stored_path pp img \<notin> dirs e1"
    using Cons.prems(2) same(1) k unfolding all by simp
  note ih = Cons.IH [OF dist(2) fr s]
  have okb: "filter (copy_ok e1 pp) (images r) = filter (copy_ok e pp) (images r)"
    if "r \<in> set rest" for r
  proof (rule filter_cong [OF refl])
    fix x assume "x \<in> set (images r)"
    then have "x \<in> set (all_images rest)" using that by (auto simp: all_images_def)
    then show "copy_ok e1 pp x = copy_ok e pp x" by (rule ok)
  qed
  have 1: "bs' = map (\<lambda>b. b\<lparr>image_paths := map ?base (filter (copy_ok e pp) (images b))\<rparr>) (b # rest)"
    using eq ih cl okb by simp
  have inb: "stored_path pp y \<notin> stored_path pp ` set (all_images rest)" if "y \<in> set (images b)" for y
    using apart(1) [OF _ that] by (metis imageE)
  have 2: "files e' (stored_path pp y) = (if copy_ok e pp y then files e (original_path y) else None)"
    if "y \<in> set (images b)" for y
    using ih inb [OF that] cl that eq by simp
  have 3: "files e' (stored_path pp x) = (if copy_ok e pp x then files e (original_path x) else None)"
    if "x \<in> set (all_images rest)" for x
    using ih that ok [OF that] same(2) [OF that] eq by simp
  have 4: "\<forall>p. p \<notin> stored_path pp ` set (all_images (b # rest)) \<longrightarrow> files e' p = files e p"
    using ih cl eq unfolding all by (auto simp: image_Un)
  show ?case
    using 1 2 3 4 unfolding all by auto
qed

lemma save_project_success:
  assumes name: "(strip (project_name_var a) = project_name \<and> project_name \<noteq> []) \<or>
       (strip (project_name_var a) = [] \<and> answer = Some project_name \<and> project_name \<noteq> [])"
    and slash: "last project_name \<noteq> CHR ''/''"
    and pp: "project_path = path_join (desktop_scanner_folder e) project_name"
    and jp: "json_path = path_join project_path ''project.json''"
    and new: "\<not> path_exists e project_path" "project_path \<notin> unwritable e"
    and jw: "json_path \<notin> unwritable e" "json_path \<notin> dirs e"
    and bs: "bs = branches (persist_prompt a)"
    and fresh: "\<forall>img \<in> set (all_images bs).
        files e (stored_path project_path img) = None \<and> stored_path project_path img \<notin> dirs e"
    and dist: "distinct (map (\<lambda>img. basename (original_path img)) (all_images bs))"
    and nom: "\<forall>img \<in> set (all_images bs). basename (original_path img) \<noteq> ''project.json''"
    and saved: "e' = snd (snd (save_project answer a e))"
  shows "files e' json_path =
      Some (Doc (json_obj_of (rstrip_nl (text_get_all (story_text a)))
        (map (\<lambda>b. b\<lparr>image_paths := map (\<lambda>img. basename (original_path img))
                (filter (copy_ok e project_path) (images b))\<rparr>) bs))) \<and>
    (\<forall>img \<in> set (all_images bs). files e' (stored_path project_path img) =
        (if copy_ok e project_path img then files e (original_path img) else None)) \<and>
    (\<forall>p. p \<notin> stored_path project_path ` set (all_images bs) \<and> p \<noteq> json_path \<longrightarrow>
        files e' p = files e p) \<and>
    home e' = home e \<and> unreadable e' = unreadable e \<and> unwritable e' = unwritable e \<and>
    dirs e' = insert project_path (dirs e)"
proof -
  have plain: "project_path \<noteq> []" "last project_path \<noteq> CHR ''/''"
    using name slash path_join_last [of project_name "desktop_scanner_folder e"] pp by auto
  let ?e1 = "e\<lparr>dirs := insert project_path (dirs e)\<rparr>"
  have mk: "makedirs e project_path = Inr ?e1"
    using new by (simp add: makedirs_def path_exists_def)
  obtain a1 where a1: "save_project answer a e = save_to project_name a1 e"
    "branches a1 = bs" "story_text a1 = story_text a"
    using save_project_save_to [OF name] bs by blast
  obtain evs bs' e2 where sb: "save_branches project_path bs ?e1 = (evs, bs', e2)"
    by (cases "save_branches project_path bs ?e1") auto
  have ne: "stored_path project_path img \<noteq> project_path" for img
    by (simp add: stored_path_plain [OF plain])
  have fr1: "\<forall>img \<in> set (all_images bs).
      files ?e1 (stored_path project_path img) = None \<and> stored_path project_path img \<notin> dirs ?e1"
    using fresh ne by simp
  note cl = save_branches_closed [OF plain dist fr1 sb]
  note k = save_branches_keeps [OF sb]
  have ok1: "copy_ok ?e1 project_path = copy_ok e project_path"
    by (rule ext) (simp add: copy_ok_def readable_files [of ?e1 _ e])
  have jne: "json_path \<noteq> project_path"
    using plain jp by (simp add: path_join_plain)
  have jd: "json_path \<noteq> stored_path project_path img" if "img \<in> set (all_images bs)" for img
    using stored_path_manifest [OF plain, of img] nom that jp by auto
  let ?doc = "Doc (json_obj_of (rstrip_nl (text_get_all (story_text a))) bs')"
  have w: "write_file e2 json_path ?doc = Inr (e2\<lparr>files := (files e2)(json_path \<mapsto> ?doc)\<rparr>)"
    using jw jne k by (simp add: write_file_def)
  have "save_to project_name a1 e =
      (evs @ [ShowInfo ''Save Successful''], a1\<lparr>branches := bs'\<rparr>,
       e2\<lparr>files := (files e2)(json_path \<mapsto> ?doc)\<rparr>)"
    using save_to_unfold [of e project_name ?e1 a1 evs bs' e2] new(1) mk sb w
    unfolding pp [symmetric] jp [symmetric] a1(2,3) by simp
  then have e': "e' = e2\<lparr>files := (files e2)(json_path \<mapsto> ?doc)\<rparr>"
    using saved a1(1) by simp
  have 1: "files e' json_path = Some ?doc"
    unfolding e' by simp
  have 2: "files e' (stored_path project_path img) =
        (if copy_ok e project_path img then files e (original_path img) else None)"
    if "img \<in> set (all_images bs)" for img
    using cl that jd [OF that] unfolding e' by (simp add: ok1)
  have 3: "bs' = map (\<lambda>b. b\<lparr>image_paths := map (\<lambda>img. basename (original_path img))
                (filter (copy_ok e project_path) (images b))\<rparr>) bs"
    using cl by (simp add: ok1)
  have 4: "files e' p = files e p"
    if "p \<notin> stored_path project_path ` set (all_images bs)" "p \<noteq> json_path" for p
    using cl that unfolding e' by simp
  have 5: "home e' = home e \<and> unreadable e' = unreadable e \<and> unwritable e' = unwritable e \<and>
    dirs e' = insert project_path (dirs e)"
    using k unfolding e' by simp
  show ?thesis using 1 2 4 5 unfolding 3 by simp
qed

subsection \<open>The loops of a load, in closed form\<close>

lemma read_file_exists: "read_file e p = Inr c \<Longrightarrow> path_exists e p"
  by (auto simp: read_file_def path_exists_def split: option.splits if_splits)

lemma add_image_node_closed:
  assumes "i < length (tree a)"
  shows "\<exists>a1. add_image_node (BranchItem i) i img k a = Inr a1 \<and>
     branches a1 = (branches a)[i := (branches a ! i)\<lparr>images := images (branches a ! i) @ [img]\<rparr>] \<and>
     length (tree a1) = length (tree a) \<and> story_text a1 = story_text a"
  using assms by (simp add: add_image_node_def Let_def)

lemma load_images_closed:
  "i < length (branches a) \<Longrightarrow> i < length (tree a) \<Longrightarrow>
   \<exists>a'. load_images e pp (BranchItem i) i names k a = Inr a' \<and>
     branches a' = (branches a)[i := (branches a ! i)
        \<lparr>images := images (branches a ! i) @ loaded_images e pp names\<rparr>] \<and>
     length (tree a') = length (tree a) \<and> story_text a' = story_text a"
proof (induction names arbitrary: k a)
  case Nil
  then show ?case by (simp add: loaded_images_def)
next
  case (Cons n rest)
  let ?p = "path_join pp n"
  show ?case
  proof (cases "read_file e ?p")
    case (Inl err)
    then have "load_images e pp (BranchItem i) i (n # rest) k a = load_images e pp (BranchItem i) i rest k a"
      by (simp add: Let_def)
    moreover have "loaded_images e pp (n # rest) = loaded_images e pp rest"
      using Inl by (simp add: loaded_images_def)
    ultimately show ?thesis using Cons.IH [OF Cons.prems] by simp
  next
    case (Inr c)
    let ?img = "\<lparr>original_path = ?p, image_bytes = c\<rparr>"
    obtain a1 where a1: "add_image_node (BranchItem i) i ?img k a = Inr a1"
      "branches a1 = (branches a)[i := (branches a ! i)\<lparr>images := images (branches a ! i) @ [?img]\<rparr>]"
      "length (tree a1) = length (tree a)" "story_text a1 = story_text a"
      using add_image_node_closed [OF Cons.prems(2)] by blast
    have l: "load_images e pp (BranchItem i) i (n # rest) k a = load_images e pp (BranchItem i) i rest (k + 1) a1"
      using Inr a1(1) read_file_exists [OF Inr] by (simp add: Let_def)
    have i1: "i < length (branches a1)" "i < length (tree a1)"
      using Cons.prems a1 by simp_all
    from Cons.IH [OF i1] obtain a' where a': "load_images e pp (BranchItem i) i rest (k + 1) a1 = Inr a'"
      "branches a' = (branches a1)[i := (branches a1 ! i)
        \<lparr>images := images (branches a1 ! i) @ loaded_images e pp rest\<rparr>]"
      "length (tree a') = length (tree a1)" "story_text a' = story_text a1"
      by blast
    have "loaded_images e pp (n # rest) = ?img # loaded_images e pp rest"
      using Inr by (simp add: loaded_images_def)
    then have "branches a' = (branches a)[i := (branches a ! i)
        \<lparr>images := images (branches a ! i) @ loaded_images e pp (n # rest)\<rparr>]"
      using a'(2) a1(2) Cons.prems(1) by simp
    then show ?thesis using l a' a1 by simp
  qed
qed

lemma load_branches_closed:
  "length (tree a) = length (branches a) \<Longrightarrow>
   \<exists>a'. load_branches e pp bjs a = Inr a' \<and>
     branches a' = branches a @ map (loaded_branch e pp) bjs \<and>
     length (tree a') = length (branches a') \<and> story_text a' = story_text a"
proof (induction bjs arbitrary: a)
  case Nil
  then show ?case by simp
next
  case (Cons b rest)
  let ?nm = "case Name b of None \<Rightarrow> ''Branch'' | Some n \<Rightarrow> n"
  let ?pr = "case Prompt b of None \<Rightarrow> [] | Some p \<Rightarrow> p"
  let ?ps = "case ImagePaths b of None \<Rightarrow> [] | Some ps \<Rightarrow> ps"
  let ?i = "length (branches a)"
  let ?br = "\<lparr>name = ?nm, prompt = ?pr, image_paths = ?ps, images = []\<rparr>"
  let ?a1 = "a\<lparr>branches := branches a @ [?br],
       tree := tree a @ [(?nm, [])],
       node_data := (node_data a)(BranchItem (length (tree a)) \<mapsto> BranchRef ?i)\<rparr>"
  have step: "load_branches e pp (b # rest) a =
      (case load_images e pp (BranchItem ?i) ?i ?ps 1 ?a1 of
         Inl a2 \<Rightarrow> Inl a2 | Inr a2 \<Rightarrow> load_branches e pp rest a2)"
    using Cons.prems by (simp add: Let_def tree_insert_root_def)
  have "?i < length (branches ?a1)" "?i < length (tree ?a1)"
    using Cons.prems by simp_all
  from load_images_closed [OF this, of e pp ?ps 1] obtain a2
    where a2: "load_images e pp (BranchItem ?i) ?i ?ps 1 ?a1 = Inr a2"
      "branches a2 = (branches ?a1)[?i := (branches ?a1 ! ?i)
        \<lparr>images := images (branches ?a1 ! ?i) @ loaded_images e pp ?ps\<rparr>]"
      "length (tree a2) = length (tree ?a1)" "story_text a2 = story_text ?a1"
    by blast
  have b2: "branches a2 = branches a @ [loaded_branch e pp b]"
    unfolding a2(2) by (simp add: loaded_branch_def)
  have "length (tree a2) = length (branches a2)"
    using a2(3) b2 Cons.prems by simp
  from Cons.IH [OF this] obtain a' where a': "load_branches e pp rest a2 = Inr a'"
    "branches a' = branches a2 @ map (loaded_branch e pp) rest"
    "length (tree a') = length (branches a')" "story_text a' = story_text a2"
    by blast
  show ?case
    using step a2 a' b2 by simp
qed

lemma read_file_makedirs: "makedirs e p = Inr e1 \<Longrightarrow> read_file e1 = read_file e"
  by (rule ext) (auto simp: makedirs_def read_file_def split: if_splits option.splits)

lemma load_project_closed:
  assumes mk: "makedirs l (desktop_scanner_folder l) = Inr l1"
    and fn: "filename \<noteq> []"
    and doc: "files l filename = Some (Doc m)" "filename \<notin> unreadable l"
  shows "fst (load_project filename a0 l) = [] \<and>
     story_text (fst (snd (load_project filename a0 l))) = (case Story m of None \<Rightarrow> [] | Some s \<Rightarrow> s) \<and>
     branches (fst (snd (load_project filename a0 l))) =
       map (loaded_branch l (dirname filename)) (case Branches m of None \<Rightarrow> [] | Some bs \<Rightarrow> bs)"
proof -
  let ?a1 = "a0\<lparr>project_name_var := basename (dirname filename)\<rparr>"
  let ?a3 = "(clear_project_data ?a1)
      \<lparr>story_text := (case Story m of None \<Rightarrow> [] | Some s \<Rightarrow> s) @ story_text (clear_project_data ?a1)\<rparr>"
  let ?bjs = "case Branches m of None \<Rightarrow> [] | Some bs \<Rightarrow> bs"
  have rj: "read_json l1 filename = Inr m"
    using doc read_json_makedirs [OF mk, of filename] by (simp add: read_json_def read_file_def)
  have "length (tree ?a3) = length (branches ?a3)"
    by (simp add: clear_project_data_def)
  from load_branches_closed [OF this, of l1 "dirname filename" ?bjs] obtain a4
    where a4: "load_branches l1 (dirname filename) ?bjs ?a3 = Inr a4"
      "branches a4 = branches ?a3 @ map (loaded_branch l1 (dirname filename)) ?bjs"
      "story_text a4 = story_text ?a3"
    by blast
  have lp: "load_project filename a0 l = ([], a4, l1)"
    using mk fn rj a4(1) by (simp add: load_project_def Let_def)
  have lb: "loaded_branch l1 = loaded_branch l"
    by (intro ext) (simp add: loaded_branch_def loaded_images_def read_file_makedirs [OF mk])
  show ?thesis
    unfolding lp using a4(2,3) by (simp add: clear_project_data_def lb)
qed

lemma loaded_of_copied:
  assumes "\<forall>img \<in> set imgs. copy_ok e1 pp img \<longrightarrow> readable l (stored_path pp img) \<longrightarrow>
        read_file l (stored_path pp img) = Inr (image_bytes img)"
    and "\<forall>img \<in> set imgs. \<not> copy_ok e1 pp img \<longrightarrow> \<not> readable l (stored_path pp img)"
  shows "loaded_images l pp (map (\<lambda>img. basename (original_path img)) (filter (copy_ok e1 pp) imgs)) =
     map (relocated pp) (filter (\<lambda>img. readable l (stored_path pp img)) imgs)"
  using assms
proof (induction imgs)
  case Nil
  then show ?case by (simp add: loaded_images_def)
next
  case (Cons img rest)
  have ih: "loaded_images l pp (map (\<lambda>img. basename (original_path img)) (filter (copy_ok e1 pp) rest)) =
     map (relocated pp) (filter (\<lambda>img. readable l (stored_path pp img)) rest)"
    using Cons by simp
  have cons: "loaded_images l pp (n # ns) =
      (case read_file l (path_join pp n) of Inl err \<Rightarrow> []
       | Inr c \<Rightarrow> [\<lparr>original_path = path_join pp n, image_bytes = c\<rparr>]) @ loaded_images l pp ns" for n ns
    by (simp add: loaded_images_def)
  show ?case
  proof (cases "copy_ok e1 pp img")
    case False
    then have "\<not> readable l (stored_path pp img)" using Cons.prems(2) by simp
    then show ?thesis using False ih by simp
  next
    case True
    show ?thesis
    proof (cases "readable l (stored_path pp img)")
      case r: True
      then have "read_file l (stored_path pp img) = Inr (image_bytes img)"
        using True Cons.prems(1) by simp
      then show ?thesis
        using True r ih by (simp add: cons relocated_def stored_path_def)
    next
      case r: False
      then obtain err where "read_file l (stored_path pp img) = Inl err"
        by (cases "read_file l (stored_path pp img)") (auto simp: readable_def)
      then show ?thesis
        using True r ih by (simp add: cons stored_path_def)
    qed
  qed
qed

subsection \<open>Round trip\<close>

lemma clash_path:
  "path_join (desktop_scanner_folder demo_env_clash) ''clash'' = ''/home/u/Desktop/Scanner/clash''"
  by (simp add: desktop_scanner_folder_def path_join_def demo_env_clash_def)

lemma clash_save_to:
  "save_project None demo_app_clash demo_env_clash = save_to ''clash'' demo_app_clash demo_env_clash"
proof -
  have "persist_prompt demo_app_clash = demo_app_clash"
    by (simp add: persist_prompt_def demo_app_clash_def)
  moreover have "strip (project_name_var demo_app_clash) = ''clash''"
    by (simp add: demo_app_clash_def strip_def isspace_def)
  ultimately show ?thesis by (simp add: save_project_def Let_def)
qed

lemma clash_makedirs:
  "makedirs demo_env_clash ''/home/u/Desktop/Scanner/clash'' =
     Inr (demo_env_clash\<lparr>dirs := insert ''/home/u/Desktop/Scanner/clash'' (dirs demo_env_clash)\<rparr>)"
  by (simp add: makedirs_def demo_env_clash_def)

lemma clash_names:
  "basename ''/pics/a.png'' = ''a.png''" "basename ''/more/a.png'' = ''a.png''"
  "path_join ''/home/u/Desktop/Scanner/clash'' ''a.png'' = ''/home/u/Desktop/Scanner/clash/a.png''"
  "path_join ''/home/u/Desktop/Scanner/clash'' ''project.json'' = ''/home/u/Desktop/Scanner/clash/project.json''"
  "dirname ''/home/u/Desktop/Scanner/clash/project.json'' = ''/home/u/Desktop/Scanner/clash''"
  by (simp_all add: basename_def path_join_def dirname_def)

lemma clash_copy_first:
  "copy2 (demo_env_clash\<lparr>dirs := insert ''/home/u/Desktop/Scanner/clash'' (dirs demo_env_clash)\<rparr>)
     ''/pics/a.png'' ''/home/u/Desktop/Scanner/clash/a.png'' =
   Inr (demo_env_clash\<lparr>dirs := insert ''/home/u/Desktop/Scanner/clash'' (dirs demo_env_clash),
          files := (files demo_env_clash)(''/home/u/Desktop/Scanner/clash/a.png'' \<mapsto> Blob ''A'')\<rparr>)"
  by (simp add: copy2_def read_file_def write_file_def demo_env_clash_def)

lemma clash_copy_second:
  "copy2 (demo_env_clash\<lparr>dirs := insert ''/home/u/Desktop/Scanner/clash'' (dirs demo_env_clash),
          files := (files demo_env_clash)(''/home/u/Desktop/Scanner/clash/a.png'' \<mapsto> Blob ''A'')\<rparr>)
     ''/more/a.png'' ''/home/u/Desktop/Scanner/clash/a.png'' = Inr demo_env_clash_copied"
  by (simp add: copy2_def read_file_def write_file_def demo_env_clash_def demo_env_clash_copied_def)

lemma clash_save_branches:
  "save_branches ''/home/u/Desktop/Scanner/clash'' (branches demo_app_clash)
     (demo_env_clash\<lparr>dirs := insert ''/home/u/Desktop/Scanner/clash'' (dirs demo_env_clash)\<rparr>) =
   ([], [\<lparr>name = ''Forest'', prompt = ''second'', image_paths = [''a.png'', ''a.png''],
          images = [\<lparr>original_path = ''/pics/a.png'', image_bytes = Blob ''A''\<rparr>,
                    \<lparr>original_path = ''/more/a.png'', image_bytes = Blob ''B''\<rparr>]\<rparr>],
    demo_env_clash_copied)"
  by (simp add: demo_app_clash_def clash_names clash_copy_first clash_copy_second Let_def)

lemma clash_saved:
  "save_project None demo_app_clash demo_env_clash =
     ([ShowInfo ''Save Successful''],
      demo_app_clash\<lparr>branches :=
        [\<lparr>name = ''Forest'', prompt = ''second'', image_paths = [''a.png'', ''a.png''],
          images = [\<lparr>original_path = ''/pics/a.png'', image_bytes = Blob ''A''\<rparr>,
                    \<lparr>original_path = ''/more/a.png'', image_bytes = Blob ''B''\<rparr>]\<rparr>]\<rparr>,
      demo_env_clash_saved)"
proof -
  have x: "\<not> path_exists demo_env_clash (path_join (desktop_scanner_folder demo_env_clash) ''clash'')"
    unfolding clash_path by (simp add: path_exists_def demo_env_clash_def)
  have s: "rstrip_nl (text_get_all (story_text demo_app_clash)) = ''Once''"
    by (simp add: rstrip_nl_def text_get_all_def demo_app_clash_def)
  have w: "write_file demo_env_clash_copied ''/home/u/Desktop/Scanner/clash/project.json''
      (Doc \<lparr>Story = Some ''Once'',
               Branches = Some [\<lparr>Name = Some ''Forest'', Prompt = Some ''second'',
                                  ImagePaths = Some [''a.png'', ''a.png'']\<rparr>]\<rparr>) =
      Inr demo_env_clash_saved"
    by (simp add: write_file_def demo_env_clash_saved_def demo_env_clash_copied_def demo_env_clash_def)
  show ?thesis
    unfolding clash_save_to
    using save_to_unfold [OF x clash_makedirs [folded clash_path] clash_save_branches [folded clash_path]]
    unfolding clash_path
    by (simp add: clash_names s json_obj_of_def w)
qed

text \<open>
  Claim C1, as stated, fails. Two pictures of one branch have the same base name in
  different folders. The save succeeds, both copies go to the same file, and the load
  reads that file twice: both loaded images hold the bytes of the second picture.
\<close>

theorem round_trip_same_name_counterexample:
  "fst (save_project None demo_app_clash demo_env_clash) = [ShowInfo ''Save Successful''] \<and>
   map image_bytes (images (branches demo_app_clash ! 0)) = [Blob ''A'', Blob ''B''] \<and>
   fst (load_project ''/home/u/Desktop/Scanner/clash/project.json'' initial_app
          (snd (snd (save_project None demo_app_clash demo_env_clash)))) = [] \<and>
   map image_bytes
     (images (branches (fst (snd (load_project ''/home/u/Desktop/Scanner/clash/project.json''
        initial_app (snd (snd (save_project None demo_app_clash demo_env_clash)))))) ! 0)) =
     [Blob ''B'', Blob ''B'']"
proof -
  let ?jp = "''/home/u/Desktop/Scanner/clash/project.json''"
  let ?m = "\<lparr>Story = Some ''Once'',
               Branches = Some [\<lparr>Name = Some ''Forest'', Prompt = Some ''second'',
                                  ImagePaths = Some [''a.png'', ''a.png'']\<rparr>]\<rparr>"
  have e: "snd (snd (save_project None demo_app_clash demo_env_clash)) = demo_env_clash_saved"
    by (simp add: clash_saved)
  have mk: "makedirs demo_env_clash_saved (desktop_scanner_folder demo_env_clash_saved) = Inr demo_env_clash_saved"
    by (simp add: makedirs_def desktop_scanner_folder_def path_join_def demo_env_clash_saved_def
        demo_env_clash_copied_def demo_env_clash_def)
  have doc: "files demo_env_clash_saved ?jp = Some (Doc ?m)" "?jp \<notin> unreadable demo_env_clash_saved"
    by (simp_all add: demo_env_clash_saved_def demo_env_clash_copied_def demo_env_clash_def)
  have rd: "read_file demo_env_clash_saved ''/home/u/Desktop/Scanner/clash/a.png'' = Inr (Blob ''B'')"
    by (simp add: read_file_def demo_env_clash_saved_def demo_env_clash_copied_def demo_env_clash_def)
  note ld = load_project_closed [OF mk _ doc, of initial_app]
  have "branches (fst (snd (load_project ?jp initial_app demo_env_clash_saved))) =
      [\<lparr>name = ''Forest'', prompt = ''second'', image_paths = [''a.png'', ''a.png''],
        images = [\<lparr>original_path = ''/home/u/Desktop/Scanner/clash/a.png'', image_bytes = Blob ''B''\<rparr>,
                  \<lparr>original_path = ''/home/u/Desktop/Scanner/clash/a.png'', image_bytes = Blob ''B''\<rparr>]\<rparr>]"
    using ld by (simp add: loaded_branch_def loaded_images_def clash_names rd)
  moreover have "fst (load_project ?jp initial_app demo_env_clash_saved) = []"
    using ld by simp
  moreover have "fst (save_project None demo_app_clash demo_env_clash) = [ShowInfo ''Save Successful'']"
    by (simp add: clash_saved)
  moreover have "map image_bytes (images (branches demo_app_clash ! 0)) = [Blob ''A'', Blob ''B'']"
    by (simp add: demo_app_clash_def)
  ultimately show ?thesis
    unfolding e by simp
qed

text \<open>
  Claim C1, amended. A project is saved under a name that does not end in a slash, into a
  folder that does not exist and can be created, with nothing stored yet where the copies
  and the manifest go and the manifest writable. The base names of all its images are
  distinct and none is \<open>project.json\<close>, and every source file that can be read still holds
  the bytes the image has in memory. Until the load, the manifest stays as written and
  readable, and each copy is either gone or unchanged. Then loading the manifest shows no
  error and gives the story as the save read it (the story field without trailing line
  feeds), the branch names and prompts of the saved project in the same order (the prompt
  being edited committed first, as the save does), and for each branch exactly those of its
  images whose copy can be read at load time, in image order, each with its bytes and with
  the path of its copy.
\<close>

theorem save_load_round_trip:
  assumes name: "(strip (project_name_var a) = project_name \<and> project_name \<noteq> []) \<or>
       (strip (project_name_var a) = [] \<and> answer = Some project_name \<and> project_name \<noteq> [])"
    and slash: "last project_name \<noteq> CHR ''/''"
    and pp: "project_path = path_join (desktop_scanner_folder e) project_name"
    and jp: "json_path = path_join project_path ''project.json''"
    and new: "\<not> path_exists e project_path" "project_path \<notin> unwritable e"
    and jw: "json_path \<notin> unwritable e" "json_path \<notin> dirs e"
    and bs: "bs = branches (persist_prompt a)"
    and fresh: "\<forall>img \<in> set (all_images bs).
        files e (stored_path project_path img) = None \<and> stored_path project_path img \<notin> dirs e"
    and dist: "distinct (map (\<lambda>img. basename (original_path img)) (all_images bs))"
    and nom: "\<forall>img \<in> set (all_images bs). basename (original_path img) \<noteq> ''project.json''"
    and same: "\<forall>img \<in> set (all_images bs). \<forall>c.
        read_file e (original_path img) = Inr c \<longrightarrow> c = image_bytes img"
    and saved: "e' = snd (snd (save_project answer a e))"
    and kept: "files l json_path = files e' json_path" "json_path \<notin> unreadable l"
    and gone: "\<forall>img \<in> set (all_images bs).
        files l (stored_path project_path img) = None \<or>
        files l (stored_path project_path img) = files e' (stored_path project_path img)"
    and mk: "makedirs l (desktop_scanner_folder l) = Inr l1"
    and loaded: "loaded = fst (snd (load_project json_path a0 l))"
  shows "fst (load_project json_path a0 l) = [] \<and>
     story_text loaded = rstrip_nl (text_get_all (story_text a)) \<and>
     map name (branches loaded) = map name bs \<and>
     map prompt (branches loaded) = map prompt bs \<and>
     map images (branches loaded) =
       map (\<lambda>b. map (relocated project_path)
                  (filter (\<lambda>img. readable l (stored_path project_path img)) (images b))) bs"
proof -
  have plain: "project_path \<noteq> []" "last project_path \<noteq> CHR ''/''"
    using name slash path_join_last [of project_name "desktop_scanner_folder e"] pp by auto
  let ?base = "\<lambda>img. basename (original_path img)"
  let ?bs' = "map (\<lambda>b. b\<lparr>image_paths := map ?base (filter (copy_ok e project_path) (images b))\<rparr>) bs"
  let ?m = "json_obj_of (rstrip_nl (text_get_all (story_text a))) ?bs'"
  note sv = save_project_success [OF name slash pp jp new jw bs fresh dist nom saved]
  have doc: "files l json_path = Some (Doc ?m)"
    using kept(1) sv by simp
  have jn: "json_path \<noteq> []" using plain jp by (simp add: path_join_plain)
  have dn: "dirname json_path = project_path"
    unfolding jp using plain by (rule dirname_manifest)
  note ld = load_project_closed [OF mk jn doc kept(2), of a0, unfolded dn]
  have img: "loaded_images l project_path (map ?base (filter (copy_ok e project_path) (images b))) =
      map (relocated project_path) (filter (\<lambda>img. readable l (stored_path project_path img)) (images b))"
    if b: "b \<in> set bs" for b
  proof (rule loaded_of_copied)
    have sub: "set (images b) \<subseteq> set (all_images bs)"
      using b by (auto simp: all_images_def)
    show "\<forall>img \<in> set (images b). copy_ok e project_path img \<longrightarrow>
        readable l (stored_path project_path img) \<longrightarrow>
        read_file l (stored_path project_path img) = Inr (image_bytes img)"
    proof (intro ballI impI)
      fix img assume i: "img \<in> set (images b)" and ok: "copy_ok e project_path img"
        and r: "readable l (stored_path project_path img)"
      have ia: "img \<in> set (all_images bs)" using i sub by auto
      obtain c where c: "read_file e (original_path img) = Inr c"
        using ok by (auto simp: copy_ok_def readable_def split: sum.splits)
      then have "c = image_bytes img" using same ia by blast
      then have "files e (original_path img) = Some (image_bytes img)"
        using c by (auto simp: read_file_def split: option.splits if_splits)
      then have "files e' (stored_path project_path img) = Some (image_bytes img)"
        using sv ia ok by simp
      moreover have "files l (stored_path project_path img) \<noteq> None"
        using r readable_none by blast
      ultimately have "files l (stored_path project_path img) = Some (image_bytes img)"
        using gone ia by auto
      then show "read_file l (stored_path project_path img) = Inr (image_bytes img)"
        using r by (auto simp: readable_def read_file_def split: if_splits)
    qed
    show "\<forall>img \<in> set (images b). \<not> copy_ok e project_path img \<longrightarrow>
        \<not> readable l (stored_path project_path img)"
    proof (intro ballI impI)
      fix img assume i: "img \<in> set (images b)" and nok: "\<not> copy_ok e project_path img"
      have ia: "img \<in> set (all_images bs)" using i sub by auto
      have "files e' (stored_path project_path img) = None"
        using sv ia nok by simp
      then have "files l (stored_path project_path img) = None"
        using gone ia by auto
      then show "\<not> readable l (stored_path project_path img)"
        by (rule readable_none)
    qed
  qed
  have br: "branches loaded = map (\<lambda>b. \<lparr>name = name b, prompt = prompt b,
        image_paths = map ?base (filter (copy_ok e project_path) (images b)),
        images = map (relocated project_path)
                  (filter (\<lambda>img. readable l (stored_path project_path img)) (images b))\<rparr>) bs"
    unfolding loaded using ld img by (simp add: json_obj_of_def loaded_branch_def comp_def)
  have st: "story_text loaded = rstrip_nl (text_get_all (story_text a))"
    unfolding loaded using ld by (simp add: json_obj_of_def)
  have ev: "fst (load_project json_path a0 l) = []"
    using ld by simp
  show ?thesis
    using ev st unfolding br by (simp add: comp_def)
qed

lemma demo_saved_path:
  "path_join (desktop_scanner_folder demo_env) ''new'' = ''/home/u/Desktop/Scanner/new''"
  by (simp add: desktop_scanner_folder_def path_join_def demo_env_def)

lemma demo_saved_manifest:
  "path_join ''/home/u/Desktop/Scanner/new'' ''project.json'' = ''/home/u/Desktop/Scanner/new/project.json''"
  by (simp add: path_join_def)

lemma demo_saved_name:
  "(strip (project_name_var demo_app_new) = ''new'' \<and> ''new'' \<noteq> []) \<or>
   (strip (project_name_var demo_app_new) = [] \<and> None = Some ''new'' \<and> ''new'' \<noteq> [])"
  by (simp add: demo_app_new_def strip_def isspace_def)

lemma demo_saved_images:
  "all_images (branches (persist_prompt demo_app_new)) =
     [\<lparr>original_path = ''/pics/a.png'', image_bytes = Blob ''A''\<rparr>,
      \<lparr>original_path = ''/pics/b.png'', image_bytes = Blob ''B''\<rparr>]"
  unfolding demo_new_branches by (simp add: all_images_def)

lemma demo_saved_stored:
  "stored_path ''/home/u/Desktop/Scanner/new'' \<lparr>original_path = ''/pics/a.png'', image_bytes = Blob ''A''\<rparr> =
     ''/home/u/Desktop/Scanner/new/a.png''"
  "stored_path ''/home/u/Desktop/Scanner/new'' \<lparr>original_path = ''/pics/b.png'', image_bytes = Blob ''B''\<rparr> =
     ''/home/u/Desktop/Scanner/new/b.png''"
  by (simp_all add: stored_path_def basename_def path_join_def)

lemma demo_saved_bases:
  "basename ''/pics/a.png'' = ''a.png''" "basename ''/pics/b.png'' = ''b.png''"
  by (simp_all add: basename_def)

lemma demo_env_reads:
  "read_file demo_env ''/pics/a.png'' = Inr (Blob ''A'')"
  "read_file demo_env ''/pics/b.png'' = Inr (Blob ''B'')"
  "files demo_env ''/pics/a.png'' = Some (Blob ''A'')"
  "files demo_env ''/pics/b.png'' = Some (Blob ''B'')"
  "files demo_env ''/home/u/Desktop/Scanner/new/a.png'' = None"
  "files demo_env ''/home/u/Desktop/Scanner/new/b.png'' = None"
  "files demo_env ''/home/u/Desktop/Scanner/new'' = None"
  "files demo_env ''/home/u/Desktop/Scanner'' = None"
  "unreadable demo_env = {}" "unwritable demo_env = {}" "home demo_env = ''/home/u''"
  "dirs demo_env = {''/home/u/Desktop/Scanner'', ''/home/u/Desktop/Scanner/old''}"
  by (simp_all add: read_file_def demo_env_def)

lemma demo_env_saved_facts:
  "files demo_env_saved ''/home/u/Desktop/Scanner/new/a.png'' = Some (Blob ''A'')"
  "files demo_env_saved ''/home/u/Desktop/Scanner/new/b.png'' = Some (Blob ''B'')"
  "files demo_env_saved ''/home/u/Desktop/Scanner'' = None"
  "home demo_env_saved = ''/home/u''"
  "unreadable demo_env_saved = {}"
  "dirs demo_env_saved = insert ''/home/u/Desktop/Scanner/new'' (dirs demo_env)"
proof -
  let ?pp = "''/home/u/Desktop/Scanner/new''"
  let ?jp = "''/home/u/Desktop/Scanner/new/project.json''"
  let ?bs = "branches (persist_prompt demo_app_new)"
  have fresh: "\<forall>img \<in> set (all_images ?bs).
        files demo_env (stored_path ?pp img) = None \<and> stored_path ?pp img \<notin> dirs demo_env"
    unfolding demo_saved_images by (simp add: demo_saved_stored demo_env_reads)
  have dist: "distinct (map (\<lambda>img. basename (original_path img)) (all_images ?bs))"
    unfolding demo_saved_images by (simp add: demo_saved_bases)
  have nom: "\<forall>img \<in> set (all_images ?bs). basename (original_path img) \<noteq> ''project.json''"
    unfolding demo_saved_images by (simp add: demo_saved_bases)
  have new: "\<not> path_exists demo_env ?pp" "?pp \<notin> unwritable demo_env"
    by (simp_all add: path_exists_def demo_env_reads)
  have jw: "?jp \<notin> unwritable demo_env" "?jp \<notin> dirs demo_env"
    by (simp_all add: demo_env_reads)
  note sv = save_project_success [OF demo_saved_name _ demo_saved_path [symmetric]
      demo_saved_manifest [symmetric] new jw refl fresh dist nom demo_env_saved_def]
  have ok: "copy_ok demo_env ?pp \<lparr>original_path = ''/pics/a.png'', image_bytes = Blob ''A''\<rparr>"
    "copy_ok demo_env ?pp \<lparr>original_path = ''/pics/b.png'', image_bytes = Blob ''B''\<rparr>"
    by (simp_all add: copy_ok_def readable_def demo_env_reads)
  have s: "\<forall>img \<in> set (all_images ?bs). files demo_env_saved (stored_path ?pp img) =
        (if copy_ok demo_env ?pp img then files demo_env (original_path img) else None)"
    using sv by simp
  show "files demo_env_saved ''/home/u/Desktop/Scanner/new/a.png'' = Some (Blob ''A'')"
    "files demo_env_saved ''/home/u/Desktop/Scanner/new/b.png'' = Some (Blob ''B'')"
    using s unfolding demo_saved_images by (simp_all add: demo_saved_stored ok demo_env_reads)
  have o: "\<forall>p. p \<notin> stored_path ?pp ` set (all_images ?bs) \<and> p \<noteq> ?jp \<longrightarrow>
        files demo_env_saved p = files demo_env p"
    using sv by simp
  have "files demo_env_saved ''/home/u/Desktop/Scanner'' = files demo_env ''/home/u/Desktop/Scanner''"
    using o unfolding demo_saved_images by (simp add: demo_saved_stored)
  then show "files demo_env_saved ''/home/u/Desktop/Scanner'' = None"
    by (simp add: demo_env_reads)
  show "home demo_env_saved = ''/home/u''" "unreadable demo_env_saved = {}"
    "dirs demo_env_saved = insert ''/home/u/Desktop/Scanner/new'' (dirs demo_env)"
    using sv by (simp_all add: demo_env_reads)
qed

text \<open>
  The project of two branches is saved under the new name; the copy of the second picture
  is deleted before the load.
\<close>

theorem save_load_round_trip_witness:
  "fst (load_project ''/home/u/Desktop/Scanner/new/project.json'' initial_app demo_env_later) = [] \<and>
   story_text (fst (snd (load_project ''/home/u/Desktop/Scanner/new/project.json'' initial_app
      demo_env_later))) = ''Once'' \<and>
   map name (branches (fst (snd (load_project ''/home/u/Desktop/Scanner/new/project.json'' initial_app
      demo_env_later)))) = [''Intro'', ''Forest''] \<and>
   map prompt (branches (fst (snd (load_project ''/home/u/Desktop/Scanner/new/project.json'' initial_app
      demo_env_later)))) = [''first, edited'', ''second''] \<and>
   map images (branches (fst (snd (load_project ''/home/u/Desktop/Scanner/new/project.json'' initial_app
      demo_env_later)))) =
     [[], [\<lparr>original_path = ''/home/u/Desktop/Scanner/new/a.png'', image_bytes = Blob ''A''\<rparr>]]"
proof -
  let ?pp = "''/home/u/Desktop/Scanner/new''"
  let ?jp = "''/home/u/Desktop/Scanner/new/project.json''"
  let ?bs = "branches (persist_prompt demo_app_new)"
  have fresh: "\<forall>img \<in> set (all_images ?bs).
        files demo_env (stored_path ?pp img) = None \<and> stored_path ?pp img \<notin> dirs demo_env"
    unfolding demo_saved_images by (simp add: demo_saved_stored demo_env_reads)
  have dist: "distinct (map (\<lambda>img. basename (original_path img)) (all_images ?bs))"
    unfolding demo_saved_images by (simp add: demo_saved_bases)
  have nom: "\<forall>img \<in> set (all_images ?bs). basename (original_path img) \<noteq> ''project.json''"
    unfolding demo_saved_images by (simp add: demo_saved_bases)
  have same: "\<forall>img \<in> set (all_images ?bs). \<forall>c.
        read_file demo_env (original_path img) = Inr c \<longrightarrow> c = image_bytes img"
    unfolding demo_saved_images by (simp add: demo_env_reads)
  have new: "\<not> path_exists demo_env ?pp" "?pp \<notin> unwritable demo_env"
    by (simp_all add: path_exists_def demo_env_reads)
  have jw: "?jp \<notin> unwritable demo_env" "?jp \<notin> dirs demo_env"
    by (simp_all add: demo_env_reads)
  have kept: "files demo_env_later ?jp = files demo_env_saved ?jp" "?jp \<notin> unreadable demo_env_later"
    by (simp_all add: demo_env_later_def demo_env_saved_facts)
  have gone: "\<forall>img \<in> set (all_images ?bs).
        files demo_env_later (stored_path ?pp img) = None \<or>
        files demo_env_later (stored_path ?pp img) = files demo_env_saved (stored_path ?pp img)"
    unfolding demo_saved_images by (simp add: demo_saved_stored demo_env_later_def)
  have mk: "makedirs demo_env_later (desktop_scanner_folder demo_env_later) = Inr demo_env_later"
    by (simp add: makedirs_def desktop_scanner_folder_def path_join_def demo_env_later_def
        demo_env_saved_facts demo_env_reads)
  have r: "readable demo_env_later ''/home/u/Desktop/Scanner/new/a.png''"
    "\<not> readable demo_env_later ''/home/u/Desktop/Scanner/new/b.png''"
    by (simp_all add: readable_def read_file_def demo_env_later_def demo_env_saved_facts)
  have st: "rstrip_nl (text_get_all (story_text demo_app_new)) = ''Once''"
    by (simp add: rstrip_nl_def text_get_all_def demo_app_new_def demo_app_def)
  note t = save_load_round_trip [OF demo_saved_name _ demo_saved_path [symmetric]
      demo_saved_manifest [symmetric] new jw refl fresh dist nom same demo_env_saved_def
      kept gone mk refl, of initial_app]
  have "map (\<lambda>b. map (relocated ?pp)
                  (filter (\<lambda>img. readable demo_env_later (stored_path ?pp img)) (images b))) ?bs =
     [[], [\<lparr>original_path = ''/home/u/Desktop/Scanner/new/a.png'', image_bytes = Blob ''A''\<rparr>]]"
    unfolding demo_new_branches by (simp add: demo_saved_stored r relocated_def)
  moreover have "map name ?bs = [''Intro'', ''Forest'']" "map prompt ?bs = [''first, edited'', ''second'']"
    unfolding demo_new_branches by simp_all
  ultimately show ?thesis using t st by simp
qed

end
